theory Spec2Isabelle
  imports Main "HOL-Library.AList"
begin

section \<open>Text\<close>

text \<open>
  Python text is a sequence of code points and \<open>len\<close> counts code points. The renderer
  itself emits two characters outside Latin-1: the horizontal ellipsis U+2026 (in
  \<open>_render_primitive\<close>) and the replacement character U+FFFD (from
  \<open>decode('ascii', errors='replace')\<close> in \<open>_render_bytes\<close>). A character of the model is
  therefore a Latin-1 code point (a HOL \<open>char\<close>) or one of these two.
\<close>

datatype uchar = L char | U2026 | UFFFD

type_synonym pystr = "uchar list"

definition lit :: "string \<Rightarrow> pystr" where
  "lit s = map L s"

text \<open>\<open>s[:n]\<close>: a negative bound counts from the end, clamped at the start.\<close>

definition py_slice :: "'a list \<Rightarrow> int \<Rightarrow> 'a list" where
  "py_slice s n = (if 0 \<le> n then take (nat n) s else take (nat (int (length s) + n)) s)"

definition digit_char :: "nat \<Rightarrow> char" where
  "digit_char d = ''0123456789abcdef'' ! d"

fun show_nat :: "nat \<Rightarrow> string" where
  "show_nat n = (if n < 10 then [digit_char n] else show_nat (n div 10) @ [digit_char (n mod 10)])"

declare show_nat.simps [simp del]

text \<open>\<open>f"{n}"\<close> for an integer.\<close>

definition show_int :: "int \<Rightarrow> string" where
  "show_int i = (if i < 0 then CHR ''-'' # show_nat (nat (- i)) else show_nat (nat i))"

text \<open>\<open>sep.join(parts)\<close>\<close>

fun join :: "'a list \<Rightarrow> 'a list list \<Rightarrow> 'a list" where
  "join sep [] = []"
| "join sep [p] = p"
| "join sep (p # q # ps) = p @ sep @ join sep (q # ps)"

definition startswith :: "'a list \<Rightarrow> 'a list \<Rightarrow> bool" where
  "startswith s p = (take (length p) s = p)"

text \<open>\<open>p in s\<close> for strings: \<open>p\<close> occurs as a contiguous substring.\<close>

fun contains :: "'a list \<Rightarrow> 'a list \<Rightarrow> bool" where
  "contains [] p = (p = [])"
| "contains (c # s) p = (startswith (c # s) p \<or> contains s p)"

subsection \<open>\<open>repr\<close> of the scalar types\<close>

definition hex2 :: "char \<Rightarrow> string" where
  "hex2 c = [digit_char (of_char c div 16), digit_char (of_char c mod 16)]"

text \<open>
  \<open>repr\<close> of a string picks the double quote only when the string has a single quote and
  no double quote; it escapes the backslash, the chosen quote, tab, newline and carriage
  return, and writes every other non-printable code point in hexadecimal. Within Latin-1
  the non-printable code points are the control characters below U+0020, U+007F to
  U+00A0, and the soft hyphen U+00AD.
\<close>

definition str_quote :: "pystr \<Rightarrow> char" where
  "str_quote s = (if L (CHR 0x27) \<in> set s \<and> L (CHR 0x22) \<notin> set s then CHR 0x22 else CHR 0x27)"

definition latin1_printable :: "char \<Rightarrow> bool" where
  "latin1_printable c = (let n = (of_char c :: nat) in
     \<not> (n < 32 \<or> (127 \<le> n \<and> n \<le> 160) \<or> n = 173))"

fun repr_uchar :: "char \<Rightarrow> uchar \<Rightarrow> pystr" where
  "repr_uchar q U2026 = [U2026]"
| "repr_uchar q UFFFD = [UFFFD]"
| "repr_uchar q (L c) =
     (if c = q \<or> c = CHR 0x5C then [L (CHR 0x5C), L c]
      else if c = CHR 0x09 then lit [CHR 0x5C, CHR ''t'']
      else if c = CHR 0x0A then lit [CHR 0x5C, CHR ''n'']
      else if c = CHR 0x0D then lit [CHR 0x5C, CHR ''r'']
      else if latin1_printable c then [L c]
      else lit ([CHR 0x5C, CHR ''x''] @ hex2 c))"

definition repr_str :: "pystr \<Rightarrow> pystr" where
  "repr_str s = (let q = str_quote s in [L q] @ concat (map (repr_uchar q) s) @ [L q])"

text \<open>\<open>repr\<close> of a byte string: the same quoting; every byte outside printable ASCII in
  hexadecimal.\<close>

definition bytes_quote :: "string \<Rightarrow> char" where
  "bytes_quote s = (if CHR 0x27 \<in> set s \<and> CHR 0x22 \<notin> set s then CHR 0x22 else CHR 0x27)"

definition repr_byte :: "char \<Rightarrow> char \<Rightarrow> string" where
  "repr_byte q c =
     (if c = q \<or> c = CHR 0x5C then [CHR 0x5C, c]
      else if c = CHR 0x09 then [CHR 0x5C, CHR ''t'']
      else if c = CHR 0x0A then [CHR 0x5C, CHR ''n'']
      else if c = CHR 0x0D then [CHR 0x5C, CHR ''r'']
      else if (of_char c :: nat) < 32 \<or> 127 \<le> (of_char c :: nat) then [CHR 0x5C, CHR ''x''] @ hex2 c
      else [c])"

definition repr_bytes :: "string \<Rightarrow> pystr" where
  "repr_bytes s = (let q = bytes_quote s in lit ([CHR ''b'', q] @ concat (map (repr_byte q) s) @ [q]))"

text \<open>\<open>bs.decode('ascii', errors='replace')\<close>: one character per byte.\<close>

definition decode_ascii_replace :: "string \<Rightarrow> pystr" where
  "decode_ascii_replace bs = map (\<lambda>c. if (of_char c :: nat) < 128 then L c else UFFFD) bs"

section \<open>Values, classes and the object store\<close>

text \<open>
  The scalars that \<open>render_child\<close> exempts from cycle detection are values of exactly the
  built-in types \<open>NoneType\<close>, \<open>bool\<close>, \<open>int\<close>, \<open>float\<close>, \<open>str\<close> and \<open>bytes\<close>. A float is
  represented by its \<open>repr\<close>, the only thing the renderer reads of it. Every other value is
  a reference into the object store; the reference is the object's \<open>id\<close>.
\<close>

datatype prim = PNone | PBool bool | PInt int | PFloat pystr | PStr pystr | PBytes string

datatype val = Prim prim | Ref nat

datatype cls =
    CObject | CNoneType | CBool | CInt | CFloat | CStr | CBytes
  | CList | CTuple | CDict | CSet | CFrozenset | CDeque | CDefaultdict | CCounter
  | CUser nat

text \<open>
  What \<open>_render_object\<close> reads of an object that is none of the built-in containers:
  \<open>dataclasses.is_dataclass(obj)\<close>, \<open>isinstance(obj, type)\<close>, \<open>repr(obj)\<close> (\<open>None\<close> when
  \<open>__repr__\<close> raises), the dataclass fields as (name, \<open>repr\<close> flag, value), \<open>vars(obj)\<close> when
  the object has a \<open>__dict__\<close>, the names in \<open>__slots__\<close> each with its value when set, and
  \<open>len(obj)\<close> when the object has a \<open>__len__\<close> that returns.
\<close>

record pyinst =
  is_dataclass :: bool
  is_class :: bool
  obj_repr :: "pystr option"
  dc_fields :: "(string \<times> bool \<times> val) list"
  inst_dict :: "(string \<times> val) list option"
  inst_slots :: "(string \<times> val option) list option"
  inst_len :: "nat option"

text \<open>
  The body of an object says which \<open>isinstance\<close> tests of \<open>_render_generic\<close> it passes.
  Dictionaries and sets list their entries in iteration order. A defaultdict carries the
  \<open>__name__\<close> of its factory (\<open>None\<close> for no factory); a Counter maps keys to integer counts.
\<close>

datatype body =
    BList "val list"
  | BTuple "val list"
  | BDict "(val \<times> val) list"
  | BSet "val list"
  | BFrozenset "val list"
  | BDeque "val list"
  | BDefaultdict "string option" "(val \<times> val) list"
  | BCounter "(val \<times> int) list"
  | BInstance pyinst

record pyobj =
  otype :: cls
  body :: body

datatype policy = Greedy | Even

text \<open>
  Session state: the two context variables of \<open>core.py\<close>. \<open>_policy\<close> has the default
  \<open>"greedy"\<close>; \<open>_seen\<close> has none, so outside a \<open>render\<close> call it is unset (\<open>None\<close>).
\<close>

record session =
  cur_policy :: policy
  cur_seen :: "nat set option"

datatype error = RuntimeError | FormatterError

type_synonym result = "(error + pystr) \<times> session"

text \<open>
  A formatter, whether a \<open>__budget_repr__\<close> method or a registered renderer, is modelled by
  what it returns for a value and a budget in a given session: a text, or an exception.
\<close>

type_synonym formatter = "session \<Rightarrow> val \<Rightarrow> int \<Rightarrow> error + pystr"

text \<open>
  A user-defined class: \<open>__name__\<close>, \<open>__mro__\<close>, the result of
  \<open>getattr(cls, "__budget_repr__", None)\<close>, and the \<open>_fields\<close> attribute when it has one.
\<close>

record clsinfo =
  cname :: string
  cmro :: "cls list"
  chook :: "formatter option"
  cfields :: "string list option"

record env =
  heap :: "nat \<Rightarrow> pyobj"
  classes :: "nat \<Rightarrow> clsinfo"
  registry :: "cls \<Rightarrow> formatter option"

fun cls_name :: "env \<Rightarrow> cls \<Rightarrow> string" where
  "cls_name E CObject = ''object''"
| "cls_name E CNoneType = ''NoneType''"
| "cls_name E CBool = ''bool''"
| "cls_name E CInt = ''int''"
| "cls_name E CFloat = ''float''"
| "cls_name E CStr = ''str''"
| "cls_name E CBytes = ''bytes''"
| "cls_name E CList = ''list''"
| "cls_name E CTuple = ''tuple''"
| "cls_name E CDict = ''dict''"
| "cls_name E CSet = ''set''"
| "cls_name E CFrozenset = ''frozenset''"
| "cls_name E CDeque = ''deque''"
| "cls_name E CDefaultdict = ''defaultdict''"
| "cls_name E CCounter = ''Counter''"
| "cls_name E (CUser k) = cname (classes E k)"

fun cls_mro :: "env \<Rightarrow> cls \<Rightarrow> cls list" where
  "cls_mro E CObject = [CObject]"
| "cls_mro E CBool = [CBool, CInt, CObject]"
| "cls_mro E CDefaultdict = [CDefaultdict, CDict, CObject]"
| "cls_mro E CCounter = [CCounter, CDict, CObject]"
| "cls_mro E (CUser k) = cmro (classes E k)"
| "cls_mro E c = [c, CObject]"

text \<open>The built-in types have no \<open>__budget_repr__\<close> and no \<open>_fields\<close>, and cannot be given
  one.\<close>

fun cls_hook :: "env \<Rightarrow> cls \<Rightarrow> formatter option" where
  "cls_hook E (CUser k) = chook (classes E k)"
| "cls_hook E c = None"

fun cls_fields :: "env \<Rightarrow> cls \<Rightarrow> string list option" where
  "cls_fields E (CUser k) = cfields (classes E k)"
| "cls_fields E c = None"

fun prim_type :: "prim \<Rightarrow> cls" where
  "prim_type PNone = CNoneType"
| "prim_type (PBool b) = CBool"
| "prim_type (PInt i) = CInt"
| "prim_type (PFloat r) = CFloat"
| "prim_type (PStr s) = CStr"
| "prim_type (PBytes bs) = CBytes"

fun type_of :: "env \<Rightarrow> val \<Rightarrow> cls" where
  "type_of E (Prim p) = prim_type p"
| "type_of E (Ref a) = otype (heap E a)"

section \<open>registry.py\<close>

text \<open>\<open>get_renderer\<close>: the first class of the MRO that is a key of the registry.\<close>

fun first_registered :: "(cls \<Rightarrow> formatter option) \<Rightarrow> cls list \<Rightarrow> formatter option" where
  "first_registered reg [] = None"
| "first_registered reg (klass # rest) =
     (case reg klass of Some f \<Rightarrow> Some f | None \<Rightarrow> first_registered reg rest)"

definition get_renderer :: "env \<Rightarrow> cls \<Rightarrow> formatter option" where
  "get_renderer E c = first_registered (registry E) (cls_mro E c)"

text \<open>\<open>register(cls)(fn)\<close>\<close>

definition register :: "cls \<Rightarrow> formatter \<Rightarrow> env \<Rightarrow> env" where
  "register c fn E = E\<lparr>registry := (registry E)(c := Some fn)\<rparr>"

section \<open>core.py\<close>

definition MIN_BUDGET :: int where
  "MIN_BUDGET = 5"

definition MIN_CHILD_BUDGET :: int where
  "MIN_CHILD_BUDGET = 15"

definition CIRCULAR :: pystr where
  "CIRCULAR = lit ''<...>''"

text \<open>The recursive entry point, as the allocators below see it.\<close>

type_synonym renderer = "session \<Rightarrow> val \<Rightarrow> int \<Rightarrow> result"

subsection \<open>Leaf formatters\<close>

fun repr_prim :: "prim \<Rightarrow> pystr" where
  "repr_prim PNone = lit ''None''"
| "repr_prim (PBool b) = (if b then lit ''True'' else lit ''False'')"
| "repr_prim (PInt i) = lit (show_int i)"
| "repr_prim (PFloat r) = r"
| "repr_prim (PStr s) = repr_str s"
| "repr_prim (PBytes bs) = repr_bytes bs"

definition render_primitive :: "prim \<Rightarrow> int \<Rightarrow> pystr" where
  "render_primitive obj budget =
     (let r = repr_prim obj in
      if int (length r) \<le> budget then r
      else py_slice r (budget - 1) @ [U2026])"

definition render_str :: "pystr \<Rightarrow> int \<Rightarrow> pystr" where
  "render_str obj budget =
     (let r = repr_str obj in
      if int (length r) \<le> budget then r
      else if budget < 6 then py_slice r budget
      else let quote = hd r; inner = budget - 5
           in [quote] @ py_slice obj inner @ lit ''...'' @ [quote])"

definition render_bytes :: "string \<Rightarrow> int \<Rightarrow> pystr" where
  "render_bytes obj budget =
     (let r = repr_bytes obj in
      if int (length r) \<le> budget then r
      else if budget < 6 then py_slice r budget
      else let inner = budget - 5
           in lit ''b'' @ [L (CHR 0x27)] @ decode_ascii_replace (py_slice obj inner)
              @ lit ''...'' @ [L (CHR 0x27)])"

subsection \<open>Markers\<close>

text \<open>\<open>f"...{k} more"\<close>, \<open>f", ...{k} more"\<close>, \<open>f", ...{k} more, "\<close> and
  \<open>f"...{n} items"\<close>\<close>

definition more_marker :: "int \<Rightarrow> pystr" where
  "more_marker k = lit (''...'' @ show_int k @ '' more'')"

definition sep_more :: "int \<Rightarrow> pystr" where
  "sep_more k = lit ('', ...'' @ show_int k @ '' more'')"

definition sep_more_sep :: "int \<Rightarrow> pystr" where
  "sep_more_sep k = lit ('', ...'' @ show_int k @ '' more, '')"

definition items_marker :: "int \<Rightarrow> pystr" where
  "items_marker n = lit (''...'' @ show_int n @ '' items'')"

text \<open>\<open>sep_cost = 2 if parts else 0\<close>\<close>

definition sep_cost_of :: "pystr list \<Rightarrow> int" where
  "sep_cost_of parts = (if parts \<noteq> [] then 2 else 0)"

text \<open>\<open>reserve = len(f", ...{omitted - 1} more") if omitted > 1 else 0\<close>\<close>

definition reserve_for :: "int \<Rightarrow> int" where
  "reserve_for omitted = (if omitted > 1 then int (length (sep_more (omitted - 1))) else 0)"

definition comma_join :: "pystr list \<Rightarrow> pystr" where
  "comma_join parts = join (lit '', '') parts"

subsection \<open>Mappings\<close>

text \<open>
  The loop of \<open>_render_dict\<close> over \<open>obj.items()\<close>. It returns \<open>parts\<close> and \<open>shown\<close>; a
  \<open>break\<close> returns them as they are, and an exception of a child leaves the loop.
\<close>

fun dict_loop ::
  "renderer \<Rightarrow> session \<Rightarrow> int \<Rightarrow> (val \<times> val) list \<Rightarrow> int \<Rightarrow> pystr list \<Rightarrow> int
     \<Rightarrow> (error + pystr list \<times> int) \<times> session" where
  "dict_loop rc s n [] remaining parts shown = (Inr (parts, shown), s)"
| "dict_loop rc s n ((key, value) # rest) remaining parts shown =
     (let sep_cost = sep_cost_of parts;
          omitted = n - shown;
          reserve = reserve_for omitted;
          available = remaining - sep_cost - reserve
      in case rc s key (min (available div 2) 40) of
           (Inl e, s1) \<Rightarrow> (Inl e, s1)
         | (Inr key_r, s1) \<Rightarrow>
             let prefix = key_r @ lit '': '';
                 val_budget = available - int (length prefix)
             in if val_budget < MIN_CHILD_BUDGET then (Inr (parts, shown), s1)
                else case rc s1 value val_budget of
                       (Inl e, s2) \<Rightarrow> (Inl e, s2)
                     | (Inr val_r, s2) \<Rightarrow>
                         let part = prefix @ val_r
                         in dict_loop rc s2 n rest (remaining - (int (length part) + sep_cost))
                              (parts @ [part]) (shown + 1))"

text \<open>The parts after the loop: the shown entries, and the count of the others if any.\<close>

definition with_omitted :: "pystr list \<Rightarrow> int \<Rightarrow> pystr list" where
  "with_omitted parts omitted = (if omitted > 0 then parts @ [more_marker omitted] else parts)"

definition render_dict :: "renderer \<Rightarrow> session \<Rightarrow> (val \<times> val) list \<Rightarrow> int \<Rightarrow> result" where
  "render_dict rc s obj budget =
     (if obj = [] then (Inr (lit ''{}''), s)
      else let n = int (length obj);
               tag = lit ''{'' @ items_marker n @ lit ''}''
      in if budget < int (length tag)
         then (Inr (if budget \<ge> 2 then py_slice (lit ''{...}'') budget
                    else py_slice (lit ''{'') budget), s)
         else if budget \<le> int (length tag) then (Inr tag, s)
         else case dict_loop rc s n obj (budget - 2) [] 0 of
                (Inl e, s1) \<Rightarrow> (Inl e, s1)
              | (Inr (parts, shown), s1) \<Rightarrow>
                  (Inr (lit ''{'' @ comma_join (with_omitted parts (n - shown)) @ lit ''}''), s1))"

subsection \<open>Sequences and sets\<close>

text \<open>
  The head loop of \<open>_render_sequence\<close> and the loop of \<open>_render_set\<close> are the same loop
  (\<open>tail_parts\<close> is empty while the head loop runs): it walks the entries in order and
  returns the parts, the remaining budget and the number of entries shown.
\<close>

fun item_loop ::
  "renderer \<Rightarrow> session \<Rightarrow> int \<Rightarrow> val list \<Rightarrow> int \<Rightarrow> pystr list \<Rightarrow> int
     \<Rightarrow> (error + pystr list \<times> int \<times> int) \<times> session" where
  "item_loop rc s n [] remaining parts idx = (Inr (parts, remaining, idx), s)"
| "item_loop rc s n (item # rest) remaining parts idx =
     (let sep_cost = sep_cost_of parts;
          omitted = n - idx;
          reserve = reserve_for omitted;
          available = remaining - sep_cost - reserve
      in if available < MIN_CHILD_BUDGET then (Inr (parts, remaining, idx), s)
         else case rc s item available of
                (Inl e, s1) \<Rightarrow> (Inl e, s1)
              | (Inr part, s1) \<Rightarrow>
                  item_loop rc s1 n rest (remaining - (int (length part) + sep_cost))
                    (parts @ [part]) (idx + 1))"

text \<open>\<open>head_parts + ([mid] if mid else []) + tail_parts\<close>, joined and bracketed.\<close>

definition seq_assemble :: "pystr \<Rightarrow> pystr \<Rightarrow> pystr list \<Rightarrow> int \<Rightarrow> pystr list \<Rightarrow> pystr" where
  "seq_assemble open_b close_b head_parts omitted tail_parts =
     open_b @ comma_join (with_omitted head_parts omitted @ tail_parts) @ close_b"

definition render_sequence :: "renderer \<Rightarrow> session \<Rightarrow> bool \<Rightarrow> val list \<Rightarrow> int \<Rightarrow> result" where
  "render_sequence rc s is_tuple obj budget =
     (let open_b = (if is_tuple then lit ''('' else lit ''['');
          close_b = (if is_tuple then lit '')'' else lit '']'')
      in if obj = [] then (Inr (open_b @ close_b), s)
         else let n = int (length obj);
                  tag = open_b @ items_marker n @ close_b
         in if budget \<le> int (length tag) then (Inr (py_slice tag budget), s)
            else case item_loop rc s n obj (budget - 2) [] 0 of
                   (Inl e, s1) \<Rightarrow> (Inl e, s1)
                 | (Inr (head_parts, remaining, head_idx), s1) \<Rightarrow>
                     let omitted = n - head_idx
                     in if omitted > 1 \<and> remaining > MIN_CHILD_BUDGET + 15
                        then let tail_budget = min (remaining - int (length (sep_more_sep (omitted - 1))))
                                                   (remaining div 3)
                             in if tail_budget \<ge> MIN_CHILD_BUDGET
                                then case rc s1 (last obj) tail_budget of
                                       (Inl e, s2) \<Rightarrow> (Inl e, s2)
                                     | (Inr tail_r, s2) \<Rightarrow>
                                         (Inr (seq_assemble open_b close_b head_parts (omitted - 1) [tail_r]), s2)
                                else (Inr (seq_assemble open_b close_b head_parts omitted []), s1)
                        else (Inr (seq_assemble open_b close_b head_parts omitted []), s1))"

definition render_set :: "renderer \<Rightarrow> session \<Rightarrow> bool \<Rightarrow> val list \<Rightarrow> int \<Rightarrow> result" where
  "render_set rc s is_frozen obj budget =
     (let prefix = (if is_frozen then lit ''frozenset('' else []);
          suffix = (if is_frozen then lit '')'' else []);
          open_b = prefix @ lit ''{'';
          close_b = lit ''}'' @ suffix
      in if obj = []
         then (if is_frozen then (Inr (py_slice (lit ''frozenset()'') budget), s)
               else (Inr (py_slice (lit ''set()'') budget), s))
         else let n = int (length obj);
                  tag = open_b @ items_marker n @ close_b
         in if budget \<le> int (length tag) then (Inr (py_slice tag budget), s)
            else case item_loop rc s n obj (budget - int (length open_b) - int (length close_b)) [] 0 of
                   (Inl e, s1) \<Rightarrow> (Inl e, s1)
                 | (Inr (parts, remaining, shown), s1) \<Rightarrow>
                     (Inr (open_b @ comma_join (with_omitted parts (n - shown)) @ close_b), s1))"

subsection \<open>Attribute bags\<close>

text \<open>\<open>len(val)\<close> where \<open>val\<close> has a \<open>__len__\<close> that returns.\<close>

fun len_of :: "env \<Rightarrow> val \<Rightarrow> nat option" where
  "len_of E (Prim (PStr s)) = Some (length s)"
| "len_of E (Prim (PBytes bs)) = Some (length bs)"
| "len_of E (Prim p) = None"
| "len_of E (Ref a) =
     (case body (heap E a) of
        BList xs \<Rightarrow> Some (length xs)
      | BTuple xs \<Rightarrow> Some (length xs)
      | BDict kvs \<Rightarrow> Some (length kvs)
      | BSet xs \<Rightarrow> Some (length xs)
      | BFrozenset xs \<Rightarrow> Some (length xs)
      | BDeque xs \<Rightarrow> Some (length xs)
      | BDefaultdict f kvs \<Rightarrow> Some (length kvs)
      | BCounter kcs \<Rightarrow> Some (length kcs)
      | BInstance i \<Rightarrow> inst_len i)"

definition type_stub :: "env \<Rightarrow> val \<Rightarrow> pystr" where
  "type_stub E v =
     (let type_name = cls_name E (type_of E v)
      in case len_of E v of
           Some k \<Rightarrow> lit (''<'' @ type_name @ ''('' @ show_int (int k) @ '')>'')
         | None \<Rightarrow> lit (''<'' @ type_name @ ''>''))"

text \<open>Phase 1 of \<open>render_attrs\<close>: full renders. It returns \<open>parts\<close>, \<open>remaining\<close> and
  \<open>idx\<close>.\<close>

fun attrs_full ::
  "renderer \<Rightarrow> session \<Rightarrow> bool \<Rightarrow> int \<Rightarrow> (string \<times> val) list \<Rightarrow> int \<Rightarrow> pystr list \<Rightarrow> int
     \<Rightarrow> (error + pystr list \<times> int \<times> int) \<times> session" where
  "attrs_full rc s evenly n [] remaining parts idx = (Inr (parts, remaining, idx), s)"
| "attrs_full rc s evenly n ((attr_name, attr_val) # others) remaining parts idx =
     (let sep_cost = sep_cost_of parts;
          rest = n - idx;
          reserve = reserve_for rest;
          available0 = remaining - sep_cost - reserve;
          available = (if evenly \<and> rest > 1
                       then min available0 ((remaining - (rest - 1) * 2) div rest)
                       else available0);
          prefix = lit (attr_name @ ''='');
          val_budget = available - int (length prefix)
      in if val_budget < MIN_CHILD_BUDGET then (Inr (parts, remaining, idx), s)
         else case rc s attr_val val_budget of
                (Inl e, s1) \<Rightarrow> (Inl e, s1)
              | (Inr val_r, s1) \<Rightarrow>
                  let part = prefix @ val_r
                  in attrs_full rc s1 evenly n others (remaining - (int (length part) + sep_cost))
                       (parts @ [part]) (idx + 1))"

text \<open>Phase 2: type stubs for the attributes that are left. It returns \<open>parts\<close> and \<open>idx\<close>.\<close>

fun attrs_stub ::
  "env \<Rightarrow> int \<Rightarrow> (string \<times> val) list \<Rightarrow> int \<Rightarrow> pystr list \<Rightarrow> int \<Rightarrow> pystr list \<times> int" where
  "attrs_stub E n [] remaining parts idx = (parts, idx)"
| "attrs_stub E n ((attr_name, attr_val) # others) remaining parts idx =
     (let stub = type_stub E attr_val;
          part = lit (attr_name @ ''='') @ stub;
          sep_cost = sep_cost_of parts;
          rest = n - idx - 1;
          reserve = (if rest > 0 then int (length (sep_more rest)) else 0)
      in if int (length part) + sep_cost + reserve > remaining then (parts, idx)
         else attrs_stub E n others (remaining - (int (length part) + sep_cost)) (parts @ [part]) (idx + 1))"

definition render_attrs ::
  "env \<Rightarrow> renderer \<Rightarrow> session \<Rightarrow> (string \<times> val) list \<Rightarrow> string \<Rightarrow> int \<Rightarrow> result" where
  "render_attrs E rc s attrs type_name budget =
     (let tag = lit (''<'' @ type_name @ ''>'');
          n = int (length attrs)
      in if attrs = [] then (Inr (py_slice tag budget), s)
         else let shell = lit (type_name @ ''()'')
         in if budget \<le> int (length shell) then (Inr (py_slice tag budget), s)
            else let evenly = (cur_policy s = Even)
            in case attrs_full rc s evenly n attrs (budget - int (length type_name) - 2) [] 0 of
                 (Inl e, s1) \<Rightarrow> (Inl e, s1)
               | (Inr (parts1, remaining, idx1), s1) \<Rightarrow>
                   (case attrs_stub E n (drop (nat idx1) attrs) remaining parts1 idx1 of
                      (parts2, idx2) \<Rightarrow>
                        let result = lit (type_name @ ''('')
                                     @ comma_join (with_omitted parts2 (n - idx2)) @ lit '')''
                        in if int (length result) > budget then (Inr (py_slice tag budget), s1)
                           else (Inr result, s1)))"

text \<open>\<open>dict(pairs)\<close>: a repeated key keeps its first position and takes the last value.\<close>

definition py_dict :: "('k \<times> 'v) list \<Rightarrow> ('k \<times> 'v) list" where
  "py_dict pairs = foldl (\<lambda>d (k, v). AList.update k v d) [] pairs"

definition render_namedtuple ::
  "env \<Rightarrow> renderer \<Rightarrow> session \<Rightarrow> string \<Rightarrow> string list \<Rightarrow> val list \<Rightarrow> int \<Rightarrow> result" where
  "render_namedtuple E rc s type_name field_names obj budget =
     render_attrs E rc s (py_dict (zip field_names obj)) type_name budget"

subsection \<open>The collections types\<close>

definition render_defaultdict ::
  "renderer \<Rightarrow> session \<Rightarrow> string option \<Rightarrow> (val \<times> val) list \<Rightarrow> int \<Rightarrow> result" where
  "render_defaultdict rc s factory obj budget =
     (let factory_name = (case factory of Some nm \<Rightarrow> nm | None \<Rightarrow> ''None'');
          prefix = lit (''defaultdict('' @ factory_name @ '', '');
          suffix = lit '')'';
          shell = lit (''defaultdict('' @ factory_name @ '')'')
      in if budget \<le> int (length shell) then (Inr (py_slice shell budget), s)
         else let inner_budget = budget - int (length prefix) - int (length suffix)
         in if inner_budget < MIN_BUDGET then (Inr (py_slice shell budget), s)
            else case render_dict rc s obj inner_budget of
                   (Inl e, s1) \<Rightarrow> (Inl e, s1)
                 | (Inr inner, s1) \<Rightarrow> (Inr (prefix @ inner @ suffix), s1))"

text \<open>\<open>most_common()\<close>: by count, largest first, equal counts in insertion order.\<close>

definition most_common :: "(val \<times> int) list \<Rightarrow> (val \<times> val) list" where
  "most_common kcs = map (\<lambda>(k, c). (k, Prim (PInt c))) (sort_key (\<lambda>(k, c). - c) kcs)"

definition render_counter :: "renderer \<Rightarrow> session \<Rightarrow> (val \<times> int) list \<Rightarrow> int \<Rightarrow> result" where
  "render_counter rc s obj budget =
     (let prefix = lit ''Counter(''; suffix = lit '')''
      in if obj = [] then (Inr (py_slice (lit ''Counter()'') budget), s)
         else let shell = lit ''Counter()''
         in if budget \<le> int (length shell) then (Inr (py_slice shell budget), s)
            else let inner_budget = budget - int (length prefix) - int (length suffix)
            in if inner_budget < MIN_BUDGET then (Inr (py_slice shell budget), s)
               else case render_dict rc s (most_common obj) inner_budget of
                      (Inl e, s1) \<Rightarrow> (Inl e, s1)
                    | (Inr inner, s1) \<Rightarrow> (Inr (prefix @ inner @ suffix), s1))"

definition render_deque :: "renderer \<Rightarrow> session \<Rightarrow> val list \<Rightarrow> int \<Rightarrow> result" where
  "render_deque rc s obj budget =
     (if obj = [] then (Inr (py_slice (lit ''deque()'') budget), s)
      else let prefix = lit ''deque(''; suffix = lit '')''; shell = prefix @ suffix
      in if budget \<le> int (length shell) then (Inr (py_slice shell budget), s)
         else let inner_budget = budget - int (length prefix) - int (length suffix)
         in if inner_budget < MIN_BUDGET then (Inr (py_slice shell budget), s)
            else case render_sequence rc s False obj inner_budget of
                   (Inl e, s1) \<Rightarrow> (Inl e, s1)
                 | (Inr inner, s1) \<Rightarrow> (Inr (prefix @ inner @ suffix), s1))"

subsection \<open>Generic objects\<close>

text \<open>The attribute discovery of \<open>_render_object\<close>.\<close>

definition discover_attrs :: "pyinst \<Rightarrow> (string \<times> val) list" where
  "discover_attrs i =
     (if is_dataclass i \<and> \<not> is_class i
      then py_dict (map (\<lambda>(name, flag, v). (name, v)) (filter (\<lambda>(name, flag, v). flag) (dc_fields i)))
      else case inst_dict i of
             Some d \<Rightarrow> py_dict (filter (\<lambda>(k, v). \<not> startswith k ''_'') d)
           | None \<Rightarrow>
               (case inst_slots i of
                  Some sl \<Rightarrow> py_dict (concat (map (\<lambda>(nm, ov). case ov of
                                 Some v \<Rightarrow> (if \<not> startswith nm ''_'' then [(nm, v)] else [])
                               | None \<Rightarrow> []) sl))
                | None \<Rightarrow> []))"

text \<open>
  The first step of \<open>_render_object\<close>: \<open>repr(obj)\<close> is returned as it is when the object is
  not a dataclass, its \<open>repr\<close> is not the default \<open><Foo object at 0x...>\<close>, and it fits.
\<close>

definition fitting_repr :: "pyinst \<Rightarrow> int \<Rightarrow> pystr option" where
  "fitting_repr i budget =
     (if \<not> is_dataclass i
      then (case obj_repr i of
              Some r \<Rightarrow>
                let is_default = (startswith r (lit ''<'') \<and> contains r (lit '' object at 0x''))
                in if \<not> is_default \<and> int (length r) \<le> budget then Some r else None
            | None \<Rightarrow> None)
      else None)"

definition render_object :: "env \<Rightarrow> renderer \<Rightarrow> session \<Rightarrow> string \<Rightarrow> pyinst \<Rightarrow> int \<Rightarrow> result" where
  "render_object E rc s type_name i budget =
     (case fitting_repr i budget of
        Some r \<Rightarrow> (Inr r, s)
      | None \<Rightarrow> render_attrs E rc s (discover_attrs i) type_name budget)"

subsection \<open>Dispatch\<close>

definition render_generic :: "env \<Rightarrow> renderer \<Rightarrow> session \<Rightarrow> val \<Rightarrow> int \<Rightarrow> result" where
  "render_generic E rc s obj budget =
     (case obj of
        Prim (PStr x) \<Rightarrow> (Inr (render_str x budget), s)
      | Prim (PBytes x) \<Rightarrow> (Inr (render_bytes x budget), s)
      | Prim p \<Rightarrow> (Inr (render_primitive p budget), s)
      | Ref a \<Rightarrow>
          (case body (heap E a) of
             BDefaultdict factory kvs \<Rightarrow> render_defaultdict rc s factory kvs budget
           | BCounter kcs \<Rightarrow> render_counter rc s kcs budget
           | BDict kvs \<Rightarrow> render_dict rc s kvs budget
           | BTuple xs \<Rightarrow>
               (case cls_fields E (otype (heap E a)) of
                  Some field_names \<Rightarrow>
                    render_namedtuple E rc s (cls_name E (otype (heap E a))) field_names xs budget
                | None \<Rightarrow> render_sequence rc s True xs budget)
           | BList xs \<Rightarrow> render_sequence rc s False xs budget
           | BSet xs \<Rightarrow> render_set rc s False xs budget
           | BFrozenset xs \<Rightarrow> render_set rc s True xs budget
           | BDeque xs \<Rightarrow> render_deque rc s xs budget
           | BInstance i \<Rightarrow> render_object E rc s (cls_name E (otype (heap E a))) i budget))"

text \<open>\<open>formatter(obj, budget)[:budget]\<close>\<close>

definition clipped :: "error + pystr \<Rightarrow> int \<Rightarrow> error + pystr" where
  "clipped r budget = (case r of Inl e \<Rightarrow> Inl e | Inr t \<Rightarrow> Inr (py_slice t budget))"

definition render_inner :: "env \<Rightarrow> renderer \<Rightarrow> session \<Rightarrow> val \<Rightarrow> int \<Rightarrow> result" where
  "render_inner E rc s obj budget =
     (case cls_hook E (type_of E obj) of
        Some method \<Rightarrow> (clipped (method s obj budget) budget, s)
      | None \<Rightarrow>
          (case get_renderer E (type_of E obj) of
             Some renderer \<Rightarrow> (clipped (renderer s obj budget) budget, s)
           | None \<Rightarrow> render_generic E rc s obj budget))"

section \<open>The recursive calls are at smaller budgets\<close>

text \<open>
  Every allocator hands its children a budget below its own. The lemmas of this section
  say so, in the form the recursive definition of \<open>render_child\<close> needs: an allocator run
  with two entry points that agree below its budget gives the same result.
\<close>

lemma sep_cost_of_nonneg [simp]: "0 \<le> sep_cost_of parts"
  by (simp add: sep_cost_of_def)

lemma reserve_for_nonneg [simp]: "0 \<le> reserve_for k"
  by (simp add: reserve_for_def)

lemma item_loop_remaining_le:
  "item_loop rc s n items r parts idx = (Inr (parts', r', idx'), s') \<Longrightarrow> r' \<le> r"
proof (induction items arbitrary: s r parts idx)
  case Nil then show ?case by simp
next
  case (Cons x xs)
  let ?av = "r - sep_cost_of parts - reserve_for (n - idx)"
  show ?case
  proof (cases "?av < MIN_CHILD_BUDGET")
    case True with Cons.prems show ?thesis by (simp add: Let_def)
  next
    case False
    obtain res s1 where rc: "rc s x ?av = (res, s1)" by (cases "rc s x ?av")
    show ?thesis
    proof (cases res)
      case (Inl e) with Cons.prems False rc show ?thesis by (simp add: Let_def)
    next
      case (Inr part)
      with Cons.prems False rc
      have "item_loop rc s1 n xs (r - (int (length part) + sep_cost_of parts)) (parts @ [part]) (idx + 1) = (Inr (parts', r', idx'), s')"
        by (simp add: Let_def)
      from Cons.IH[OF this] have "r' \<le> r - (int (length part) + sep_cost_of parts)" .
      moreover have "0 \<le> sep_cost_of parts" by simp
      ultimately show ?thesis by linarith
    qed
  qed
qed

lemma item_loop_cong:
  assumes "\<And>s' v b'. b' < B \<Longrightarrow> rc s' v b' = rc' s' v b'" and "r < B"
  shows "item_loop rc s n items r parts idx = item_loop rc' s n items r parts idx"
  using assms(2)
proof (induction items arbitrary: s r parts idx)
  case Nil then show ?case by simp
next
  case (Cons x xs)
  let ?av = "r - sep_cost_of parts - reserve_for (n - idx)"
  show ?case
  proof (cases "?av < MIN_CHILD_BUDGET")
    case True then show ?thesis by (simp add: Let_def)
  next
    case False
    have "?av \<le> r" using sep_cost_of_nonneg[of parts] reserve_for_nonneg[of "n - idx"] by linarith
    with Cons.prems have eq: "rc s x ?av = rc' s x ?av" by (intro assms(1)) simp
    obtain res s1 where rc: "rc' s x ?av = (res, s1)" by (cases "rc' s x ?av")
    show ?thesis
    proof (cases res)
      case (Inl e) with False rc eq show ?thesis by (simp add: Let_def)
    next
      case (Inr part)
      have "r - (int (length part) + sep_cost_of parts) < B"
        using Cons.prems sep_cost_of_nonneg[of parts] by linarith
      from Cons.IH[OF this] Inr False rc eq show ?thesis by (simp add: Let_def)
    qed
  qed
qed

lemma dict_loop_cong:
  assumes "\<And>s' v b'. b' < B \<Longrightarrow> rc s' v b' = rc' s' v b'" and "r < B" and "0 \<le> B"
  shows "dict_loop rc s n items r parts shown = dict_loop rc' s n items r parts shown"
  using assms(2)
proof (induction items arbitrary: s r parts shown)
  case Nil then show ?case by simp
next
  case (Cons kv xs)
  obtain k v where kv: "kv = (k, v)" by (cases kv)
  let ?av = "r - sep_cost_of parts - reserve_for (n - shown)"
  have av: "?av \<le> r" using sep_cost_of_nonneg[of parts] reserve_for_nonneg[of "n - shown"] by linarith
  have "min (?av div 2) 40 < B" using av Cons.prems assms(3) by (cases "0 \<le> ?av") auto
  then have eqk: "rc s k (min (?av div 2) 40) = rc' s k (min (?av div 2) 40)" by (rule assms(1))
  obtain res s1 where rck: "rc' s k (min (?av div 2) 40) = (res, s1)" by (cases "rc' s k (min (?av div 2) 40)")
  show ?case
  proof (cases res)
    case (Inl e) with rck eqk kv show ?thesis by (simp add: Let_def)
  next
    case (Inr key_r)
    let ?vb = "?av - int (length (key_r @ lit '': ''))"
    show ?thesis
    proof (cases "?vb < MIN_CHILD_BUDGET")
      case True with Inr rck eqk kv show ?thesis by (simp add: Let_def)
    next
      case False
      have "?vb < B" using av Cons.prems by linarith
      then have eqv: "rc s1 v ?vb = rc' s1 v ?vb" by (rule assms(1))
      obtain res2 s2 where rcv: "rc' s1 v ?vb = (res2, s2)" by (cases "rc' s1 v ?vb")
      show ?thesis
      proof (cases res2)
        case (Inl e) with False Inr rck eqk kv rcv eqv show ?thesis by (simp add: Let_def)
      next
        case (Inr val_r)
        have "r - (int (length ((key_r @ lit '': '') @ val_r)) + sep_cost_of parts) < B"
          using Cons.prems sep_cost_of_nonneg[of parts] by linarith
        from Cons.IH[OF this] Inr False \<open>res = Inr key_r\<close> rck eqk kv rcv eqv show ?thesis by (simp add: Let_def)
      qed
    qed
  qed
qed

lemma attrs_full_cong:
  assumes "\<And>s' v b'. b' < B \<Longrightarrow> rc s' v b' = rc' s' v b'" and "r < B"
  shows "attrs_full rc s ev n items r parts idx = attrs_full rc' s ev n items r parts idx"
  using assms(2)
proof (induction items arbitrary: s r parts idx)
  case Nil then show ?case by simp
next
  case (Cons kv xs)
  obtain k v where kv: "kv = (k, v)" by (cases kv)
  let ?base = "r - sep_cost_of parts - reserve_for (n - idx)"
  let ?av = "if ev \<and> n - idx > 1 then min ?base ((r - (n - idx - 1) * 2) div (n - idx)) else ?base"
  let ?vb = "?av - int (length (lit (k @ ''='')))"
  have base: "?base \<le> r" using sep_cost_of_nonneg[of parts] reserve_for_nonneg[of "n - idx"] by linarith
  have "?av \<le> ?base" by auto
  with base have av: "?av \<le> r" by linarith
  show ?case
  proof (cases "?vb < MIN_CHILD_BUDGET")
    case True then show ?thesis unfolding kv by (simp add: Let_def)
  next
    case False
    have "?vb < B" using av Cons.prems by linarith
    then have eqv: "rc s v ?vb = rc' s v ?vb" by (rule assms(1))
    obtain res s1 where rcv: "rc' s v ?vb = (res, s1)" by (cases "rc' s v ?vb")
    show ?thesis
    proof (cases res)
      case (Inl e) with False rcv eqv show ?thesis unfolding kv by (simp add: Let_def)
    next
      case (Inr val_r)
      have "r - (int (length (lit (k @ ''='') @ val_r)) + sep_cost_of parts) < B"
        using Cons.prems sep_cost_of_nonneg[of parts] by linarith
      from Cons.IH[OF this] Inr False rcv eqv show ?thesis unfolding kv by (simp add: Let_def)
    qed
  qed
qed

lemma render_dict_cong:
  assumes "\<And>s' v b'. b' < budget \<Longrightarrow> rc s' v b' = rc' s' v b'"
  shows "render_dict rc s obj budget = render_dict rc' s obj budget"
proof (cases "obj \<noteq> [] \<and> \<not> budget \<le> int (length (lit ''{'' @ items_marker (int (length obj)) @ lit ''}''))")
  case True
  then have "0 \<le> budget" by linarith
  then have "dict_loop rc s (int (length obj)) obj (budget - 2) [] 0 = dict_loop rc' s (int (length obj)) obj (budget - 2) [] 0"
    by (intro dict_loop_cong[where B=budget] assms) auto
  then show ?thesis by (simp add: render_dict_def Let_def)
next
  case False then show ?thesis by (auto simp add: render_dict_def Let_def)
qed

lemma render_sequence_cong:
  assumes "\<And>s' v b'. b' < budget \<Longrightarrow> rc s' v b' = rc' s' v b'"
  shows "render_sequence rc s is_tuple obj budget = render_sequence rc' s is_tuple obj budget"
proof -
  let ?n = "int (length obj)"
  have loop: "item_loop rc s ?n obj (budget - 2) [] 0 = item_loop rc' s ?n obj (budget - 2) [] 0"
    by (intro item_loop_cong[where B=budget] assms) auto
  obtain res s1 where il: "item_loop rc' s ?n obj (budget - 2) [] 0 = (res, s1)"
    by (cases "item_loop rc' s ?n obj (budget - 2) [] 0")
  show ?thesis
  proof (cases res)
    case (Inl e)
    with il loop show ?thesis by (simp add: render_sequence_def Let_def)
  next
    case (Inr t)
    obtain hp r hi where t: "t = (hp, r, hi)" by (cases t)
    from item_loop_remaining_le[of rc' s ?n obj "budget - 2" "[]" 0 hp r hi s1] il Inr t
    have r: "r \<le> budget - 2" by simp
    have tail: "rc s1 (last obj) tb = rc' s1 (last obj) tb" if "tb \<le> r div 3" "MIN_CHILD_BUDGET \<le> tb" for tb
    proof -
      from that have "0 \<le> r" by (simp add: MIN_CHILD_BUDGET_def)
      with that r have "tb < budget" by linarith
      then show ?thesis by (rule assms)
    qed
    show ?thesis using il loop Inr t
      by (simp add: render_sequence_def Let_def tail)
  qed
qed

lemma render_set_cong:
  assumes "\<And>s' v b'. b' < budget \<Longrightarrow> rc s' v b' = rc' s' v b'"
  shows "render_set rc s is_frozen obj budget = render_set rc' s is_frozen obj budget"
proof -
  have "item_loop rc s n obj (budget - int (length (p @ lit ''{'')) - int (length (lit ''}'' @ q))) [] 0
      = item_loop rc' s n obj (budget - int (length (p @ lit ''{'')) - int (length (lit ''}'' @ q))) [] 0" for n and p q :: pystr
    by (intro item_loop_cong[where B=budget] assms) (auto simp: lit_def)
  then show ?thesis by (simp add: render_set_def Let_def)
qed

lemma render_attrs_cong:
  assumes "\<And>s' v b'. b' < budget \<Longrightarrow> rc s' v b' = rc' s' v b'"
  shows "render_attrs E rc s attrs type_name budget = render_attrs E rc' s attrs type_name budget"
proof -
  have "attrs_full rc s ev n attrs (budget - int (length type_name) - 2) [] 0
      = attrs_full rc' s ev n attrs (budget - int (length type_name) - 2) [] 0" for ev n
    by (intro attrs_full_cong[where B=budget] assms) auto
  then show ?thesis by (simp add: render_attrs_def Let_def)
qed

lemma render_defaultdict_cong:
  assumes "\<And>s' v b'. b' < budget \<Longrightarrow> rc s' v b' = rc' s' v b'"
  shows "render_defaultdict rc s f obj budget = render_defaultdict rc' s f obj budget"
proof -
  have "render_dict rc s obj (budget - int k - int j) = render_dict rc' s obj (budget - int k - int j)" for k j
    by (intro render_dict_cong assms) auto
  then show ?thesis by (simp add: render_defaultdict_def Let_def)
qed

lemma render_counter_cong:
  assumes "\<And>s' v b'. b' < budget \<Longrightarrow> rc s' v b' = rc' s' v b'"
  shows "render_counter rc s obj budget = render_counter rc' s obj budget"
proof -
  have "render_dict rc s kvs (budget - int k - int j) = render_dict rc' s kvs (budget - int k - int j)" for k j kvs
    by (intro render_dict_cong assms) auto
  then show ?thesis by (simp add: render_counter_def Let_def)
qed

lemma render_deque_cong:
  assumes "\<And>s' v b'. b' < budget \<Longrightarrow> rc s' v b' = rc' s' v b'"
  shows "render_deque rc s obj budget = render_deque rc' s obj budget"
proof -
  have "render_sequence rc s False obj (budget - int k - int j) = render_sequence rc' s False obj (budget - int k - int j)" for k j
    by (intro render_sequence_cong assms) auto
  then show ?thesis by (simp add: render_deque_def Let_def)
qed

lemma render_generic_cong:
  assumes "\<And>s' v b'. b' < budget \<Longrightarrow> rc s' v b' = rc' s' v b'"
  shows "render_generic E rc s obj budget = render_generic E rc' s obj budget"
  unfolding render_generic_def render_namedtuple_def render_object_def
  using render_defaultdict_cong[of budget rc rc', OF assms]
    render_counter_cong[of budget rc rc', OF assms]
    render_dict_cong[of budget rc rc', OF assms]
    render_sequence_cong[of budget rc rc', OF assms]
    render_set_cong[of budget rc rc', OF assms]
    render_deque_cong[of budget rc rc', OF assms]
    render_attrs_cong[of budget rc rc', OF assms]
  by (simp split: val.splits prim.splits body.splits option.splits)

lemma render_inner_cong [fundef_cong]:
  assumes "E = E'" "s = s'" "obj = obj'" "budget = budget'"
    and "\<And>s2 v2 b2. b2 < budget' \<Longrightarrow> rc s2 v2 b2 = rc' s2 v2 b2"
  shows "render_inner E rc s obj budget = render_inner E' rc' s' obj' budget'"
  unfolding render_inner_def assms(1-4)
  using render_generic_cong[of budget' rc rc', OF assms(5)]
  by (simp split: option.splits)

section \<open>The entry points\<close>

text \<open>\<open>seen.discard(obj_id)\<close> on the set that \<open>_seen\<close> holds.\<close>

definition seen_discard :: "nat \<Rightarrow> session \<Rightarrow> session" where
  "seen_discard obj_id s = s\<lparr>cur_seen := map_option (\<lambda>seen. seen - {obj_id}) (cur_seen s)\<rparr>"

function render_child :: "env \<Rightarrow> session \<Rightarrow> val \<Rightarrow> int \<Rightarrow> result" where
  "render_child E s obj budget =
     (if budget < MIN_BUDGET then (Inr (py_slice (lit ''...'') budget), s)
      else case obj of
             Ref obj_id \<Rightarrow>
               (case cur_seen s of
                  None \<Rightarrow> (Inl RuntimeError, s)
                | Some seen \<Rightarrow>
                    if obj_id \<in> seen then (Inr (py_slice CIRCULAR budget), s)
                    else (case render_inner E (render_child E) (s\<lparr>cur_seen := Some (insert obj_id seen)\<rparr>) obj budget of
                            (r, s1) \<Rightarrow> (r, seen_discard obj_id s1)))
           | Prim p \<Rightarrow> render_inner E (render_child E) s obj budget)"
  by pat_completeness auto
termination
  apply (relation "measure (\<lambda>(E, s, obj, budget). nat budget)")
  apply (auto simp: MIN_BUDGET_def)
  done

declare render_child.simps [simp del]

text \<open>
  \<open>render\<close>: both context variables are set for the call and reset to what they held
  before, on every path.
\<close>

definition render :: "env \<Rightarrow> session \<Rightarrow> val \<Rightarrow> int \<Rightarrow> policy \<Rightarrow> result" where
  "render E s obj budget pol =
     (case render_child E (s\<lparr>cur_policy := pol, cur_seen := Some {}\<rparr>) obj budget of
        (r, s1) \<Rightarrow> (r, s1\<lparr>cur_seen := cur_seen s, cur_policy := cur_policy s\<rparr>))"

section \<open>Properties\<close>

subsection \<open>Basic facts about text\<close>

lemma length_lit [simp]: "length (lit s) = length s"
  by (simp add: lit_def)

lemma py_slice_nonneg: "0 \<le> n \<Longrightarrow> py_slice s n = take (nat n) s"
  by (simp add: py_slice_def)


subsection \<open>Concrete surroundings for the examples\<close>

text \<open>An environment with nothing registered and no hooks, and the session outside any
  \<open>render\<close> call.\<close>

definition bare_env :: env where
  "bare_env = \<lparr>heap = (\<lambda>a. \<lparr>otype = CList, body = BList []\<rparr>),
               classes = (\<lambda>k. \<lparr>cname = ''C'', cmro = [CUser k, CObject], chook = None, cfields = None\<rparr>),
               registry = (\<lambda>c. None)\<rparr>"

definition no_session :: session where
  "no_session = \<lparr>cur_policy = Greedy, cur_seen = None\<rparr>"

subsection \<open>Budgets below the minimum\<close>

text \<open>
  C7. For every value and every budget \<open>b\<close> with \<open>0 \<le> b < 5\<close>, \<open>render_child\<close> returns
  \<open>"..."\<close> cut to \<open>b\<close> characters and leaves the session as it was. The equation holds for
  every environment, every session (also one with no active \<open>render\<close> call, or with the
  value already in the cycle guard) and every value: neither the hook, nor the registry,
  nor the guard, nor the value is consulted.
\<close>

theorem below_min_budget_placeholder:
  assumes "0 \<le> budget" and "budget < 5"
  shows "render_child E s obj budget = (Inr (take (nat budget) (lit ''...'')), s)"
  using assms by (simp add: render_child.simps MIN_BUDGET_def py_slice_nonneg)

theorem below_min_budget_placeholder_witness:
  "(0::int) \<le> 3 \<and> (3::int) < 5 \<and>
   render_child bare_env no_session (Ref 0) 3 = (Inr (lit ''...''), no_session)"
  using below_min_budget_placeholder[of 3 bare_env no_session "Ref 0"]
  by (simp add: lit_def)

subsection \<open>\<open>render_child\<close> outside \<open>render\<close>\<close>




subsection \<open>Dispatch priority\<close>

lemma first_registered_nearest:
  assumes "\<forall>c\<in>set pre. reg c = None" and "reg klass = Some f"
  shows "first_registered reg (pre @ klass # post) = Some f"
  using assms by (induction pre) auto

lemma first_registered_none:
  assumes "\<forall>c\<in>set mro. reg c = None"
  shows "first_registered reg mro = None"
  using assms by (induction mro) auto

text \<open>
  C5. Dispatch, for a value with an entry point \<open>rc\<close> for its children, resolves in this
  order. If the value's type has the hook \<open>__budget_repr__\<close>, the hook's result, clipped to
  the budget, is returned, whatever the registry holds. Otherwise, if the MRO of the type is
  \<open>pre @ klass # post\<close>, no class of \<open>pre\<close> is registered and \<open>klass\<close> is, then \<open>get_renderer\<close>
  finds the formatter of \<open>klass\<close> (the nearest registered ancestor, so a subtype with no
  registration of its own inherits it) and its result, clipped, is returned. Otherwise, with
  no class of the MRO registered, the generic fallback runs. Inside an active call,
  \<open>render_child\<close> of a value that is not on the stack, with a budget of at least 5, returns
  what this dispatch returns.
\<close>

theorem dispatch_priority:
  "(cls_hook E (type_of E obj) = Some method \<longrightarrow>
      render_inner E rc s obj budget = (clipped (method s obj budget) budget, s))
   \<and> (cls_hook E (type_of E obj) = None
        \<and> cls_mro E (type_of E obj) = pre @ klass # post
        \<and> (\<forall>c\<in>set pre. registry E c = None) \<and> registry E klass = Some renderer \<longrightarrow>
      get_renderer E (type_of E obj) = Some renderer
      \<and> render_inner E rc s obj budget = (clipped (renderer s obj budget) budget, s))
   \<and> (cls_hook E (type_of E obj) = None
        \<and> (\<forall>c\<in>set (cls_mro E (type_of E obj)). registry E c = None) \<longrightarrow>
      render_inner E rc s obj budget = render_generic E rc s obj budget)
   \<and> (5 \<le> budget \<and> cur_seen s = Some seen \<and> a \<notin> seen \<longrightarrow>
      fst (render_child E s (Ref a) budget)
        = fst (render_inner E (render_child E) (s\<lparr>cur_seen := Some (insert a seen)\<rparr>) (Ref a) budget))"
  by (auto simp: render_inner_def get_renderer_def first_registered_nearest first_registered_none
      render_child.simps[of E s "Ref a"] MIN_BUDGET_def split: prod.splits)

text \<open>A class \<open>CUser 1\<close> deriving from \<open>CUser 0\<close>; formatters are registered for the base class
  and for \<open>object\<close>, none for the subclass.\<close>

definition sub_env :: env where
  "sub_env = \<lparr>heap = (\<lambda>a. \<lparr>otype = CUser 1, body = BInstance \<lparr>is_dataclass = False, is_class = False,
                 obj_repr = None, dc_fields = [], inst_dict = None, inst_slots = None, inst_len = None\<rparr>\<rparr>),
              classes = (\<lambda>k. \<lparr>cname = ''Sub'', cmro = [CUser 1, CUser 0, CObject], chook = None, cfields = None\<rparr>),
              registry = (\<lambda>c. if c = CUser 0 then Some (\<lambda>s v b. Inr (lit ''base formatter''))
                               else if c = CObject then Some (\<lambda>s v b. Inr (lit ''object formatter''))
                               else None)\<rparr>"

theorem dispatch_priority_witness:
  "cls_hook sub_env (type_of sub_env (Ref 0)) = None
   \<and> cls_mro sub_env (type_of sub_env (Ref 0)) = [CUser 1] @ CUser 0 # [CObject]
   \<and> registry sub_env (CUser 1) = None
   \<and> render_inner sub_env (render_child sub_env) no_session (Ref 0) 7 = (Inr (lit ''base fo''), no_session)"
  using dispatch_priority[of sub_env "Ref 0" "\<lambda>s v b. Inr []" "render_child sub_env" no_session 7
      "[CUser 1]" "CUser 0" "[CObject]" "\<lambda>s v b. Inr (lit ''base formatter'')" "{}" 0]
  by (simp add: sub_env_def clipped_def py_slice_def lit_def)

subsection \<open>Attribute bags with no attributes\<close>

lemma tag_ne_shell: "take n (lit (''<'' @ t @ ''>'')) \<noteq> lit (t @ ''()'')"
proof
  assume eq: "take n (lit (''<'' @ t @ ''>'')) = lit (t @ ''()'')"
  then have "length (take n (lit (''<'' @ t @ ''>''))) = length (lit (t @ ''()''))" by simp
  then have "length t + 2 \<le> n" by simp
  then have "take n (lit (''<'' @ t @ ''>'')) = lit (''<'' @ t @ ''>'')" by simp
  with eq have "last (lit (''<'' @ t @ ''>'')) = last (lit (t @ ''()''))" by simp
  then show False by (simp add: lit_def)
qed

text \<open>
  C9. For every type name and every budget \<open>\<ge> 0\<close>, \<open>render_attrs\<close> with no attributes
  returns the tag \<open><TypeName>\<close> cut to the budget, and that text is never the shell
  \<open>TypeName()\<close>. So an object for which attribute discovery finds nothing, once
  \<open>_render_object\<close> gets to attribute discovery (its \<open>repr\<close> is not returned as it is),
  renders as its tag.
\<close>

theorem empty_attrs_bare_tag:
  assumes "0 \<le> budget"
  shows "render_attrs E rc s [] type_name budget
           = (Inr (take (nat budget) (lit (''<'' @ type_name @ ''>''))), s)
       \<and> take (nat budget) (lit (''<'' @ type_name @ ''>'')) \<noteq> lit (type_name @ ''()'')
       \<and> (discover_attrs i = [] \<and> fitting_repr i budget = None \<longrightarrow>
            render_object E rc s type_name i budget
              = (Inr (take (nat budget) (lit (''<'' @ type_name @ ''>''))), s))"
proof (intro conjI impI)
  show a: "render_attrs E rc s [] type_name budget
             = (Inr (take (nat budget) (lit (''<'' @ type_name @ ''>''))), s)"
    using assms by (simp add: render_attrs_def py_slice_nonneg)
  show "take (nat budget) (lit (''<'' @ type_name @ ''>'')) \<noteq> lit (type_name @ ''()'')"
    by (rule tag_ne_shell)
  assume "discover_attrs i = [] \<and> fitting_repr i budget = None"
  then show "render_object E rc s type_name i budget
               = (Inr (take (nat budget) (lit (''<'' @ type_name @ ''>''))), s)"
    using a by (simp add: render_object_def)
qed

definition plain_inst :: pyinst where
  "plain_inst = \<lparr>is_dataclass = False, is_class = False,
      obj_repr = Some (lit ''<Foo object at 0x7f3a>''), dc_fields = [],
      inst_dict = Some [(''_hidden'', Prim PNone)], inst_slots = None, inst_len = None\<rparr>"

theorem empty_attrs_bare_tag_witness:
  "(0::int) \<le> 100
   \<and> discover_attrs plain_inst = [] \<and> fitting_repr plain_inst 100 = None
   \<and> render_attrs bare_env (render_child bare_env) no_session [] ''Foo'' 100 = (Inr (lit ''<Foo>''), no_session)
   \<and> render_object bare_env (render_child bare_env) no_session ''Foo'' plain_inst 100 = (Inr (lit ''<Foo>''), no_session)"
  using empty_attrs_bare_tag[of 100 bare_env "render_child bare_env" no_session "''Foo''" plain_inst]
  by (simp add: plain_inst_def discover_attrs_def fitting_repr_def py_dict_def startswith_def lit_def)

subsection \<open>Named tuples\<close>

lemma update_fresh: "k \<notin> fst ` set al \<Longrightarrow> AList.update k v al = al @ [(k, v)]"
  by (induction al) auto

lemma foldl_update_distinct:
  "distinct (map fst (acc @ xs)) \<Longrightarrow> foldl (\<lambda>d (k, v). AList.update k v d) acc xs = acc @ xs"
proof (induction xs arbitrary: acc)
  case Nil then show ?case by simp
next
  case (Cons x xs)
  obtain k v where x: "x = (k, v)" by (cases x)
  from Cons.prems have fresh: "k \<notin> fst ` set acc" by (auto simp: x)
  from Cons.prems have "distinct (map fst ((acc @ [(k, v)]) @ xs))" by (simp add: x)
  from Cons.IH[OF this] show ?case by (simp add: x update_fresh[OF fresh])
qed

lemma py_dict_distinct: "distinct (map fst xs) \<Longrightarrow> py_dict xs = xs"
  using foldl_update_distinct[of "[]" xs] by (simp add: py_dict_def)

lemma distinct_zip_fst: "distinct fs \<Longrightarrow> distinct (map fst (zip fs xs))"
  by (simp add: map_fst_zip_take distinct_take)

text \<open>
  C10. In the generic fallback, a tuple whose type has a \<open>_fields\<close> attribute is rendered
  by \<open>render_attrs\<close> on the fields zipped with the entries, under the type's name; with
  distinct field names these are the (field, value) pairs in declared order. The plain
  sequence branch is not taken.
\<close>

theorem namedtuple_as_attrs:
  assumes "body (heap E a) = BTuple xs" and "cls_fields E (otype (heap E a)) = Some fs"
  shows "render_generic E rc s (Ref a) budget
           = render_attrs E rc s (py_dict (zip fs xs)) (cls_name E (otype (heap E a))) budget
       \<and> (distinct fs \<longrightarrow> py_dict (zip fs xs) = zip fs xs)"
  using assms by (simp add: render_generic_def render_namedtuple_def py_dict_distinct distinct_zip_fst)

definition point_env :: env where
  "point_env = \<lparr>heap = (\<lambda>a. \<lparr>otype = CUser 0, body = BTuple [Prim (PInt 1), Prim (PInt 2)]\<rparr>),
                classes = (\<lambda>k. \<lparr>cname = ''Point'', cmro = [CUser 0, CTuple, CObject], chook = None,
                                 cfields = Some [''x'', ''y'']\<rparr>),
                registry = (\<lambda>c. None)\<rparr>"

theorem namedtuple_as_attrs_witness:
  "body (heap point_env 0) = BTuple [Prim (PInt 1), Prim (PInt 2)]
   \<and> cls_fields point_env (otype (heap point_env 0)) = Some [''x'', ''y'']
   \<and> distinct [''x'', ''y'']
   \<and> render_generic point_env (render_child point_env) no_session (Ref 0) 100
        = (Inr (lit ''Point(x=1, y=2)''), no_session)
   \<and> render_sequence (render_child point_env) no_session True [Prim (PInt 1), Prim (PInt 2)] 100
        = (Inr (lit ''(1, 2)''), no_session)"
proof -
  have a: "render_attrs point_env (render_child point_env) no_session
             [(''x'', Prim (PInt 1)), (''y'', Prim (PInt 2))] ''Point'' 100
           = (Inr (lit ''Point(x=1, y=2)''), no_session)"
    by code_simp
  have b: "render_sequence (render_child point_env) no_session True [Prim (PInt 1), Prim (PInt 2)] 100
           = (Inr (lit ''(1, 2)''), no_session)"
    by code_simp
  have c: "py_dict (zip [''x'', ''y''] [Prim (PInt 1), Prim (PInt 2)]) = [(''x'', Prim (PInt 1)), (''y'', Prim (PInt 2))]"
    by code_simp
  show ?thesis
    using namedtuple_as_attrs[of point_env 0 "[Prim (PInt 1), Prim (PInt 2)]" "[''x'', ''y'']"
        "render_child point_env" no_session 100] a b c
    by (simp add: point_env_def)
qed

subsection \<open>Empty containers\<close>


lemma render_restores_fields:
  "snd (render E s obj budget pol) = (snd (render_child E (s\<lparr>cur_policy := pol, cur_seen := Some {}\<rparr>) obj budget))
        \<lparr>cur_seen := cur_seen s, cur_policy := cur_policy s\<rparr>"
  by (simp add: render_def split: prod.splits)

lemma session_reset [simp]:
  "(s1 :: session)\<lparr>cur_seen := cur_seen s, cur_policy := cur_policy s\<rparr> = s"
  by (cases s, cases s1) simp





subsection \<open>The budget and byte strings\<close>

text \<open>
  C1 fails on byte strings. \<open>_render_bytes\<close> keeps \<open>budget - 5\<close> bytes and adds six
  characters around them (\<open>b'\<close>, \<open>...\<close> and \<open>'\<close>): \<open>render(b"aaaaaaaaaa", 10)\<close>, whose \<open>repr\<close>
  has 13 characters, returns the 11 characters \<open>b'aaaaa...'\<close>.
\<close>

theorem bytes_exceed_budget:
  "render bare_env no_session (Prim (PBytes ''aaaaaaaaaa'')) 10 Greedy
     = (Inr (lit ''b'' @ [L (CHR 0x27)] @ lit ''aaaaa...'' @ [L (CHR 0x27)]), no_session)
   \<and> length (lit ''b'' @ [L (CHR 0x27)] @ lit ''aaaaa...'' @ [L (CHR 0x27)]) = 11
   \<and> length (repr_bytes ''aaaaaaaaaa'') = 13"
proof -
  have "render bare_env no_session (Prim (PBytes ''aaaaaaaaaa'')) 10 Greedy
     = (Inr (lit ''b'' @ [L (CHR 0x27)] @ lit ''aaaaa...'' @ [L (CHR 0x27)]), no_session)"
    by code_simp
  moreover have "length (repr_bytes ''aaaaaaaaaa'') = 13" by code_simp
  ultimately show ?thesis by simp
qed

section \<open>The cycle guard\<close>

subsection \<open>Every allocator leaves the session as it found it\<close>

text \<open>An entry point restores the session when the session it returns is the one it was
  given, whether it returns a text or raises.\<close>

definition restores :: "renderer \<Rightarrow> bool" where
  "restores rc = (\<forall>s v b. snd (rc s v b) = s)"

lemma restoresD: "restores rc \<Longrightarrow> rc s v b = (r, s') \<Longrightarrow> s' = s"
  unfolding restores_def by (metis snd_conv)

lemma item_loop_restores:
  assumes "restores rc"
  shows "snd (item_loop rc s n items r parts idx) = s"
proof (induction items arbitrary: r parts idx)
  case Nil then show ?case by simp
next
  case (Cons x xs)
  let ?av = "r - sep_cost_of parts - reserve_for (n - idx)"
  obtain res s1 where rc: "rc s x ?av = (res, s1)" by (cases "rc s x ?av")
  with assms have s1: "s1 = s" by (rule restoresD)
  show ?case using rc s1 Cons.IH
    by (cases res) (simp_all add: Let_def)
qed

lemma dict_loop_restores:
  assumes "restores rc"
  shows "snd (dict_loop rc s n items r parts shown) = s"
proof (induction items arbitrary: r parts shown)
  case Nil then show ?case by simp
next
  case (Cons kv xs)
  obtain k v where kv: "kv = (k, v)" by (cases kv)
  let ?av = "r - sep_cost_of parts - reserve_for (n - shown)"
  obtain res s1 where rck: "rc s k (min (?av div 2) 40) = (res, s1)" by (cases "rc s k (min (?av div 2) 40)")
  with assms have s1: "s1 = s" by (rule restoresD)
  show ?case
  proof (cases res)
    case (Inl e) with rck s1 show ?thesis by (simp add: kv Let_def)
  next
    case (Inr key_r)
    let ?vb = "?av - int (length (key_r @ lit '': ''))"
    obtain res2 s2 where rcv: "rc s v ?vb = (res2, s2)" by (cases "rc s v ?vb")
    with assms have s2: "s2 = s" by (rule restoresD)
    show ?thesis using rck s1 Inr rcv s2 Cons.IH
      by (cases res2) (simp_all add: kv Let_def)
  qed
qed

lemma attrs_full_restores:
  assumes "restores rc"
  shows "snd (attrs_full rc s ev n items r parts idx) = s"
proof (induction items arbitrary: r parts idx)
  case Nil then show ?case by simp
next
  case (Cons kv xs)
  obtain k v where kv: "kv = (k, v)" by (cases kv)
  let ?base = "r - sep_cost_of parts - reserve_for (n - idx)"
  let ?av = "if ev \<and> n - idx > 1 then min ?base ((r - (n - idx - 1) * 2) div (n - idx)) else ?base"
  let ?vb = "?av - int (length (lit (k @ ''='')))"
  obtain res s1 where rcv: "rc s v ?vb = (res, s1)" by (cases "rc s v ?vb")
  with assms have s1: "s1 = s" by (rule restoresD)
  show ?case using rcv s1 Cons.IH
    by (cases res) (simp_all add: kv Let_def)
qed

lemma render_dict_restores:
  assumes "restores rc"
  shows "snd (render_dict rc s obj budget) = s"
proof -
  obtain res s1 where dl: "dict_loop rc s (int (length obj)) obj (budget - 2) [] 0 = (res, s1)"
    by (cases "dict_loop rc s (int (length obj)) obj (budget - 2) [] 0")
  with dict_loop_restores[OF assms, of s "int (length obj)" obj "budget - 2" "[]" 0]
  have "s1 = s" by simp
  with dl show ?thesis
    by (cases res) (simp_all add: render_dict_def Let_def split: prod.splits)
qed

lemma render_sequence_restores:
  assumes "restores rc"
  shows "snd (render_sequence rc s is_tuple obj budget) = s"
proof -
  obtain res s1 where il: "item_loop rc s (int (length obj)) obj (budget - 2) [] 0 = (res, s1)"
    by (cases "item_loop rc s (int (length obj)) obj (budget - 2) [] 0")
  with item_loop_restores[OF assms, of s "int (length obj)" obj "budget - 2" "[]" 0]
  have s1: "s1 = s" by simp
  show ?thesis
  proof (cases res)
    case (Inl e) with il s1 show ?thesis by (simp add: render_sequence_def Let_def)
  next
    case (Inr t)
    obtain hp r hi where t: "t = (hp, r, hi)" by (cases t)
    have tl: "(case rc s (last obj) tb of (Inl e, s2) \<Rightarrow> (Inl e, s2) | (Inr tail_r, s2) \<Rightarrow> (Inr (f tail_r), s2)) =
              (case fst (rc s (last obj) tb) of Inl e \<Rightarrow> Inl e | Inr tail_r \<Rightarrow> Inr (f tail_r), s)" for tb and f :: "pystr \<Rightarrow> pystr"
      using assms by (cases "rc s (last obj) tb") (auto simp: restores_def split: sum.splits dest: restoresD[OF assms])
    show ?thesis using il s1 Inr t
      by (simp add: render_sequence_def Let_def tl)
  qed
qed

lemma render_set_restores:
  assumes "restores rc"
  shows "snd (render_set rc s is_frozen obj budget) = s"
proof -
  let ?r = "budget - int (length ((if is_frozen then lit ''frozenset('' else []) @ lit ''{''))
              - int (length (lit ''}'' @ (if is_frozen then lit '')'' else [])))"
  obtain res s1 where il: "item_loop rc s (int (length obj)) obj ?r [] 0 = (res, s1)"
    by (cases "item_loop rc s (int (length obj)) obj ?r [] 0")
  with item_loop_restores[OF assms, of s "int (length obj)" obj ?r "[]" 0]
  have "s1 = s" by simp
  with il show ?thesis
    by (cases res) (simp_all add: render_set_def Let_def split: prod.splits)
qed

lemma render_attrs_restores:
  assumes "restores rc"
  shows "snd (render_attrs E rc s attrs type_name budget) = s"
proof -
  let ?l = "attrs_full rc s (cur_policy s = Even) (int (length attrs)) attrs (budget - int (length type_name) - 2) [] 0"
  obtain res s1 where il: "?l = (res, s1)" by (cases ?l)
  with attrs_full_restores[OF assms, of s "cur_policy s = Even" "int (length attrs)" attrs
      "budget - int (length type_name) - 2" "[]" 0]
  have "s1 = s" by simp
  with il show ?thesis
    by (cases res) (simp_all add: render_attrs_def Let_def split: prod.splits)
qed

lemma render_defaultdict_restores:
  assumes "restores rc"
  shows "snd (render_defaultdict rc s f obj budget) = s"
proof -
  have "snd (case render_dict rc s obj b of (Inl e, s1) \<Rightarrow> (Inl e, s1) | (Inr inner, s1) \<Rightarrow> (Inr (g inner), s1)) = s"
    for b and g :: "pystr \<Rightarrow> pystr"
    using render_dict_restores[OF assms, of s obj b]
    by (cases "render_dict rc s obj b") (auto split: sum.splits)
  then show ?thesis by (simp add: render_defaultdict_def Let_def)
qed

lemma render_counter_restores:
  assumes "restores rc"
  shows "snd (render_counter rc s obj budget) = s"
proof -
  have "snd (case render_dict rc s kvs b of (Inl e, s1) \<Rightarrow> (Inl e, s1) | (Inr inner, s1) \<Rightarrow> (Inr (g inner), s1)) = s"
    for b kvs and g :: "pystr \<Rightarrow> pystr"
    using render_dict_restores[OF assms, of s kvs b]
    by (cases "render_dict rc s kvs b") (auto split: sum.splits)
  then show ?thesis by (simp add: render_counter_def Let_def)
qed

lemma render_deque_restores:
  assumes "restores rc"
  shows "snd (render_deque rc s obj budget) = s"
proof -
  have "snd (case render_sequence rc s False obj b of (Inl e, s1) \<Rightarrow> (Inl e, s1) | (Inr inner, s1) \<Rightarrow> (Inr (g inner), s1)) = s"
    for b and g :: "pystr \<Rightarrow> pystr"
    using render_sequence_restores[OF assms, of s False obj b]
    by (cases "render_sequence rc s False obj b") (auto split: sum.splits)
  then show ?thesis by (simp add: render_deque_def Let_def)
qed

lemma render_generic_restores:
  assumes "restores rc"
  shows "snd (render_generic E rc s obj budget) = s"
  using render_dict_restores[OF assms] render_sequence_restores[OF assms]
    render_set_restores[OF assms] render_attrs_restores[OF assms]
    render_defaultdict_restores[OF assms] render_counter_restores[OF assms]
    render_deque_restores[OF assms]
  by (simp add: render_generic_def render_namedtuple_def render_object_def
      split: val.splits prim.splits body.splits option.splits)

lemma render_inner_restores:
  "restores rc \<Longrightarrow> snd (render_inner E rc s obj budget) = s"
  by (simp add: render_inner_def render_generic_restores split: option.splits)

text \<open>The entry point, cut off at a budget: below the bound it is \<open>render_child\<close>.\<close>

definition below :: "int \<Rightarrow> renderer \<Rightarrow> renderer" where
  "below bound rc = (\<lambda>s v b. if b < bound then rc s v b else (Inr [], s))"

lemma render_inner_below:
  "render_inner E rc s obj budget = render_inner E (below budget rc) s obj budget"
  by (rule render_inner_cong) (simp_all add: below_def)

lemma render_child_restores: "snd (render_child E s obj budget) = s"
proof (induction E s obj budget rule: render_child.induct)
  case (1 E s obj budget)
  show ?case
  proof (cases "budget < MIN_BUDGET")
    case True then show ?thesis by (simp add: render_child.simps)
  next
    case False
    have r: "restores (below budget (render_child E))" if "cur_seen s = Some sn \<and> a \<notin> sn \<and> obj = Ref a \<or> obj = Prim p" for sn a p
      unfolding restores_def below_def using "1.IH" False that by auto
    show ?thesis
    proof (cases obj)
      case (Prim p)
      with r[of _ _ p] have "restores (below budget (render_child E))" by simp
      from render_inner_restores[OF this, of E s obj budget] show ?thesis
        using False Prim render_inner_below[of E "render_child E" s obj budget]
        by (simp add: render_child.simps)
    next
      case (Ref a)
      show ?thesis
      proof (cases "cur_seen s")
        case None with False Ref show ?thesis by (simp add: render_child.simps)
      next
        case (Some sn)
        show ?thesis
        proof (cases "a \<in> sn")
          case True with False Ref Some show ?thesis by (simp add: render_child.simps)
        next
          case notin: False
          with r[of sn a] Some Ref have "restores (below budget (render_child E))" by simp
          from render_inner_restores[OF this, of E "s\<lparr>cur_seen := Some (insert a sn)\<rparr>" obj budget]
          have inner: "snd (render_inner E (render_child E) (s\<lparr>cur_seen := Some (insert a sn)\<rparr>) obj budget)
                  = s\<lparr>cur_seen := Some (insert a sn)\<rparr>"
            using render_inner_below[of E "render_child E" _ obj budget] by simp
          obtain r s1 where ri: "render_inner E (render_child E) (s\<lparr>cur_seen := Some (insert a sn)\<rparr>) obj budget = (r, s1)"
            by (cases "render_inner E (render_child E) (s\<lparr>cur_seen := Some (insert a sn)\<rparr>) obj budget")
          with inner have s1: "s1 = s\<lparr>cur_seen := Some (insert a sn)\<rparr>" by simp
          have undone: "seen_discard a (s\<lparr>cur_seen := Some (insert a sn)\<rparr>) = s"
            using Some notin by (cases s) (simp add: seen_discard_def)
          show ?thesis using False Ref Some notin ri s1 undone
            by (simp add: render_child.simps)
        qed
      qed
    qed
  qed
qed

subsection \<open>The guard after a call\<close>

lemma render_session_restored: "snd (render E s obj budget pol) = s"
  by (cases s) (simp add: render_def split: prod.splits)

lemma session_overwritten:
  "(s :: session)\<lparr>cur_policy := pol, cur_seen := sn\<rparr> = s'\<lparr>cur_policy := pol, cur_seen := sn\<rparr>"
  by (cases s, cases s') simp

lemma render_ignores_session: "fst (render E s obj budget pol) = fst (render E s' obj budget pol)"
proof -
  have "s\<lparr>cur_policy := pol, cur_seen := Some {}\<rparr> = s'\<lparr>cur_policy := pol, cur_seen := Some {}\<rparr>"
    by (rule session_overwritten)
  then have "fst (render_child E (s\<lparr>cur_policy := pol, cur_seen := Some {}\<rparr>) obj budget)
           = fst (render_child E (s'\<lparr>cur_policy := pol, cur_seen := Some {}\<rparr>) obj budget)"
    by (rule arg_cong)
  then show ?thesis by (simp add: render_def split_beta)
qed

definition active_session :: session where
  "active_session = \<lparr>cur_policy = Greedy, cur_seen = Some {}\<rparr>"

text \<open>\<open>shared = [1, 2, 3]; obj = [shared, shared]\<close>\<close>

definition dag_env :: env where
  "dag_env = \<lparr>heap = (\<lambda>a. if a = 0 then \<lparr>otype = CList, body = BList [Ref 1, Ref 1]\<rparr>
                          else \<lparr>otype = CList, body = BList [Prim (PInt 1), Prim (PInt 2), Prim (PInt 3)]\<rparr>),
              classes = (\<lambda>k. \<lparr>cname = ''C'', cmro = [CUser k, CObject], chook = None, cfields = None\<rparr>),
              registry = (\<lambda>c. None)\<rparr>"

text \<open>A list \<open>[bad, [1, 2, 3]]\<close> where the \<open>__budget_repr__\<close> of \<open>bad\<close> raises.\<close>

definition raising_env :: env where
  "raising_env = \<lparr>heap = (\<lambda>a. if a = 0 then \<lparr>otype = CList, body = BList [Ref 2, Ref 1]\<rparr>
                          else if a = 1 then \<lparr>otype = CList, body = BList [Prim (PInt 1), Prim (PInt 2), Prim (PInt 3)]\<rparr>
                          else \<lparr>otype = CUser 0, body = BInstance \<lparr>is_dataclass = False, is_class = False,
                                 obj_repr = None, dc_fields = [], inst_dict = None, inst_slots = None, inst_len = None\<rparr>\<rparr>),
              classes = (\<lambda>k. \<lparr>cname = ''Bad'', cmro = [CUser k, CObject],
                               chook = Some (\<lambda>s v b. Inl FormatterError), cfields = None\<rparr>),
              registry = (\<lambda>c. None)\<rparr>"

text \<open>
  C4. \<open>render_child\<close> returns the session it was given, whether the inner render returns
  or raises: the identity it adds on entry (the inner dispatch runs with the identity in
  the guard) is gone when it exits, and a value that is in the guard renders as the
  circular marker. So a second \<open>render_child\<close> of the same value, after the first has
  returned, sees the guard of the first and gives the same result: siblings render alike.
  \<open>render\<close> returns the session it was given too, its result does not depend on that
  session, and a \<open>render\<close> that follows another one is the \<open>render\<close> it would have been alone.
\<close>

theorem cycle_guard_balanced:
  "snd (render_child E s obj budget) = s
   \<and> (5 \<le> budget \<and> cur_seen s = Some seen \<and> a \<notin> seen \<longrightarrow>
        render_child E s (Ref a) budget
          = (fst (render_inner E (render_child E) (s\<lparr>cur_seen := Some (insert a seen)\<rparr>) (Ref a) budget), s))
   \<and> (5 \<le> budget \<and> cur_seen s = Some seen \<and> a \<in> seen \<longrightarrow>
        render_child E s (Ref a) budget = (Inr (py_slice CIRCULAR budget), s))
   \<and> render_child E (snd (render_child E s obj budget)) obj budget = render_child E s obj budget
   \<and> snd (render E s obj budget pol) = s
   \<and> render E (snd (render E s obj budget pol)) obj2 budget2 pol2 = render E s obj2 budget2 pol2
   \<and> fst (render E s obj budget pol) = fst (render E s2 obj budget pol)"
proof -
  have 1: "snd (render_child E s obj budget) = s" by (rule render_child_restores)
  have 2: "render_child E s (Ref a) budget
          = (fst (render_inner E (render_child E) (s\<lparr>cur_seen := Some (insert a seen)\<rparr>) (Ref a) budget), s)"
    if "5 \<le> budget \<and> cur_seen s = Some seen \<and> a \<notin> seen"
  proof -
    have "snd (render_child E s (Ref a) budget) = s" by (rule render_child_restores)
    moreover have "fst (render_child E s (Ref a) budget)
        = fst (render_inner E (render_child E) (s\<lparr>cur_seen := Some (insert a seen)\<rparr>) (Ref a) budget)"
      using that by (simp add: render_child.simps[of E s "Ref a"] MIN_BUDGET_def split: prod.splits)
    ultimately show ?thesis by (metis prod.collapse)
  qed
  have 3: "render_child E s (Ref a) budget = (Inr (py_slice CIRCULAR budget), s)"
    if "5 \<le> budget \<and> cur_seen s = Some seen \<and> a \<in> seen"
    using that by (simp add: render_child.simps[of E s "Ref a"] MIN_BUDGET_def)
  show ?thesis
    using 1 2 3 render_session_restored[of E s obj budget pol]
      render_ignores_session[of E s obj budget pol s2]
    by simp
qed

theorem cycle_guard_balanced_witness:
  "(5::int) \<le> 100 \<and> cur_seen active_session = Some {} \<and> (0::nat) \<notin> {}
   \<and> render_child dag_env active_session (Ref 0) 100
        = (Inr (lit ''[[1, 2, 3], [1, 2, 3]]''), active_session)
   \<and> render_child raising_env active_session (Ref 0) 100 = (Inl FormatterError, active_session)
   \<and> render_child raising_env (snd (render_child raising_env active_session (Ref 0) 100)) (Ref 1) 100
        = (Inr (lit ''[1, 2, 3]''), active_session)"
proof -
  have a: "render_child dag_env active_session (Ref 0) 100
        = (Inr (lit ''[[1, 2, 3], [1, 2, 3]]''), active_session)" by code_simp
  have b: "render_child raising_env active_session (Ref 0) 100 = (Inl FormatterError, active_session)"
    by code_simp
  have c: "render_child raising_env active_session (Ref 1) 100 = (Inr (lit ''[1, 2, 3]''), active_session)"
    by code_simp
  show ?thesis
    using cycle_guard_balanced[of raising_env active_session "Ref 0" 100 "{}" 0] a b c
    by (simp add: active_session_def)
qed

section \<open>Omitted entries are counted\<close>

text \<open>A part shows an entry when it is the text the entry point returned for that entry,
  at a budget of at least the child minimum.\<close>

definition shows_item :: "renderer \<Rightarrow> pystr \<Rightarrow> val \<Rightarrow> bool" where
  "shows_item rc part item = (\<exists>s b. MIN_CHILD_BUDGET \<le> b \<and> fst (rc s item b) = Inr part)"

definition shows_entry :: "renderer \<Rightarrow> pystr \<Rightarrow> val \<times> val \<Rightarrow> bool" where
  "shows_entry rc part kv =
     (\<exists>s1 kb key_r s2 vb val_r.
        fst (rc s1 (fst kv) kb) = Inr key_r \<and> MIN_CHILD_BUDGET \<le> vb
        \<and> fst (rc s2 (snd kv) vb) = Inr val_r \<and> part = key_r @ lit '': '' @ val_r)"

lemma item_loop_count:
  "item_loop rc s n items r parts idx = (Inr (parts', r', idx'), s') \<Longrightarrow>
     \<exists>new. parts' = parts @ new \<and> idx' = idx + int (length new)
           \<and> list_all2 (shows_item rc) new (take (length new) items)"
proof (induction items arbitrary: s r parts idx)
  case Nil then show ?case by simp
next
  case (Cons x xs)
  let ?av = "r - sep_cost_of parts - reserve_for (n - idx)"
  show ?case
  proof (cases "?av < MIN_CHILD_BUDGET")
    case True with Cons.prems show ?thesis by (simp add: Let_def)
  next
    case False
    obtain res s1 where rc: "rc s x ?av = (res, s1)" by (cases "rc s x ?av")
    show ?thesis
    proof (cases res)
      case (Inl e) with Cons.prems False rc show ?thesis by (simp add: Let_def)
    next
      case (Inr part)
      with Cons.prems False rc
      have "item_loop rc s1 n xs (r - (int (length part) + sep_cost_of parts)) (parts @ [part]) (idx + 1)
              = (Inr (parts', r', idx'), s')"
        by (simp add: Let_def)
      from Cons.IH[OF this] obtain new where new: "parts' = (parts @ [part]) @ new"
        "idx' = idx + 1 + int (length new)" "list_all2 (shows_item rc) new (take (length new) xs)"
        by auto
      have "shows_item rc part x" unfolding shows_item_def using False rc Inr
        by (intro exI[of _ s] exI[of _ ?av]) simp
      with new show ?thesis
        by (intro exI[of _ "part # new"]) simp
    qed
  qed
qed

lemma dict_loop_count:
  "dict_loop rc s n items r parts shown = (Inr (parts', shown'), s') \<Longrightarrow>
     \<exists>new. parts' = parts @ new \<and> shown' = shown + int (length new)
           \<and> list_all2 (shows_entry rc) new (take (length new) items)"
proof (induction items arbitrary: s r parts shown)
  case Nil then show ?case by simp
next
  case (Cons kv xs)
  obtain k v where kv: "kv = (k, v)" by (cases kv)
  let ?av = "r - sep_cost_of parts - reserve_for (n - shown)"
  obtain res s1 where rck: "rc s k (min (?av div 2) 40) = (res, s1)" by (cases "rc s k (min (?av div 2) 40)")
  show ?case
  proof (cases res)
    case (Inl e) with Cons.prems rck show ?thesis by (simp add: kv Let_def)
  next
    case (Inr key_r)
    let ?vb = "?av - int (length (key_r @ lit '': ''))"
    show ?thesis
    proof (cases "?vb < MIN_CHILD_BUDGET")
      case True with Cons.prems rck Inr show ?thesis by (simp add: kv Let_def)
    next
      case False
      obtain res2 s2 where rcv: "rc s1 v ?vb = (res2, s2)" by (cases "rc s1 v ?vb")
      show ?thesis
      proof (cases res2)
        case (Inl e) with Cons.prems rck \<open>res = Inr key_r\<close> False rcv show ?thesis by (simp add: kv Let_def)
      next
        case (Inr val_r)
        let ?part = "(key_r @ lit '': '') @ val_r"
        from Cons.prems rck \<open>res = Inr key_r\<close> False rcv Inr
        have "dict_loop rc s2 n xs (r - (int (length ?part) + sep_cost_of parts)) (parts @ [?part]) (shown + 1)
                = (Inr (parts', shown'), s')"
          by (simp add: kv Let_def)
        from Cons.IH[OF this] obtain new where new: "parts' = (parts @ [?part]) @ new"
          "shown' = shown + 1 + int (length new)" "list_all2 (shows_entry rc) new (take (length new) xs)"
          by auto
        have "shows_entry rc ?part kv" unfolding shows_entry_def kv
          using rck \<open>res = Inr key_r\<close> False rcv Inr
          by (intro exI[of _ s] exI[of _ "min (?av div 2) 40"] exI[of _ key_r] exI[of _ s1] exI[of _ ?vb] exI[of _ val_r]) simp
        with new show ?thesis
          by (intro exI[of _ "?part # new"]) simp
      qed
    qed
  qed
qed

lemma list_all2_take_length: "list_all2 P xs (take (length xs) ys) \<Longrightarrow> length xs \<le> length ys"
  by (auto dest: list_all2_lengthD)

lemma render_dict_parts:
  assumes "obj \<noteq> []" and "int (length (lit ''{'' @ items_marker (int (length obj)) @ lit ''}'')) < budget"
    and "render_dict rc s obj budget = (Inr out, s')"
  shows "\<exists>parts. out = lit ''{'' @ comma_join (with_omitted parts (int (length obj) - int (length parts))) @ lit ''}''
           \<and> list_all2 (shows_entry rc) parts (take (length parts) obj)
           \<and> length parts \<le> length obj"
proof -
  let ?n = "int (length obj)"
  obtain res s1 where dl: "dict_loop rc s ?n obj (budget - 2) [] 0 = (res, s1)"
    by (cases "dict_loop rc s ?n obj (budget - 2) [] 0")
  show ?thesis
  proof (cases res)
    case (Inl e)
    with assms dl show ?thesis by (simp add: render_dict_def Let_def)
  next
    case (Inr t)
    obtain parts shown where t: "t = (parts, shown)" by (cases t)
    from dict_loop_count[of rc s ?n obj "budget - 2" "[]" 0 parts shown s1] dl Inr t
    have c: "shown = int (length parts)" "list_all2 (shows_entry rc) parts (take (length parts) obj)"
      by auto
    from assms dl Inr t have "out = lit ''{'' @ comma_join (with_omitted parts (?n - shown)) @ lit ''}''"
      by (simp add: render_dict_def Let_def)
    with c list_all2_take_length[OF c(2)] show ?thesis by auto
  qed
qed

lemma render_set_parts:
  assumes "obj \<noteq> []"
    and "int (length (((if is_frozen then lit ''frozenset('' else []) @ lit ''{'') @ items_marker (int (length obj))
                @ lit ''}'' @ (if is_frozen then lit '')'' else []))) < budget"
    and "render_set rc s is_frozen obj budget = (Inr out, s')"
  shows "\<exists>parts. out = ((if is_frozen then lit ''frozenset('' else []) @ lit ''{'')
                     @ comma_join (with_omitted parts (int (length obj) - int (length parts)))
                     @ lit ''}'' @ (if is_frozen then lit '')'' else [])
           \<and> list_all2 (shows_item rc) parts (take (length parts) obj)
           \<and> length parts \<le> length obj"
proof -
  let ?n = "int (length obj)"
  let ?op = "(if is_frozen then lit ''frozenset('' else []) @ lit ''{''"
  let ?cl = "lit ''}'' @ (if is_frozen then lit '')'' else [])"
  let ?r = "budget - int (length ?op) - int (length ?cl)"
  obtain res s1 where il: "item_loop rc s ?n obj ?r [] 0 = (res, s1)"
    by (cases "item_loop rc s ?n obj ?r [] 0")
  show ?thesis
  proof (cases res)
    case (Inl e)
    with assms il show ?thesis by (simp add: render_set_def Let_def)
  next
    case (Inr t)
    obtain parts r' shown where t: "t = (parts, r', shown)" by (cases t)
    from item_loop_count[of rc s ?n obj ?r "[]" 0 parts r' shown s1] il Inr t
    have c: "shown = int (length parts)" "list_all2 (shows_item rc) parts (take (length parts) obj)"
      by auto
    from assms il Inr t have "out = ?op @ comma_join (with_omitted parts (?n - shown)) @ ?cl"
      by (simp add: render_set_def Let_def)
    with c list_all2_take_length[OF c(2)] show ?thesis by auto
  qed
qed

lemma render_sequence_parts:
  assumes "obj \<noteq> []" and "2 + int (length (items_marker (int (length obj)))) < budget"
    and "render_sequence rc s is_tuple obj budget = (Inr out, s')"
  shows "\<exists>head_parts tail_parts.
           out = seq_assemble (if is_tuple then lit ''('' else lit ''['') (if is_tuple then lit '')'' else lit '']'')
                   head_parts (int (length obj) - int (length head_parts) - int (length tail_parts)) tail_parts
           \<and> list_all2 (shows_item rc) head_parts (take (length head_parts) obj)
           \<and> list_all2 (shows_item rc) tail_parts (drop (length obj - length tail_parts) obj)
           \<and> length head_parts + length tail_parts \<le> length obj"
proof -
  let ?n = "int (length obj)"
  let ?op = "if is_tuple then lit ''('' else lit ''[''"
  let ?cl = "if is_tuple then lit '')'' else lit '']''"
  have tag: "\<not> budget \<le> int (length (?op @ items_marker ?n @ ?cl))" using assms(2) by simp
  obtain res s1 where il: "item_loop rc s ?n obj (budget - 2) [] 0 = (res, s1)"
    by (cases "item_loop rc s ?n obj (budget - 2) [] 0")
  show ?thesis
  proof (cases res)
    case (Inl e)
    with assms(1,3) tag il show ?thesis by (simp add: render_sequence_def Let_def)
  next
    case (Inr t)
    obtain hp r hi where t: "t = (hp, r, hi)" by (cases t)
    from item_loop_count[of rc s ?n obj "budget - 2" "[]" 0 hp r hi s1] il Inr t
    have c: "hi = int (length hp)" "list_all2 (shows_item rc) hp (take (length hp) obj)"
      by auto
    note le = list_all2_take_length[OF c(2)]
    let ?tb = "min (r - int (length (sep_more_sep (?n - hi - 1)))) (r div 3)"
    define has_tail where "has_tail \<longleftrightarrow> ?n - hi > 1 \<and> r > MIN_CHILD_BUDGET + 15 \<and> ?tb \<ge> MIN_CHILD_BUDGET"
    have unf: "render_sequence rc s is_tuple obj budget =
        (if has_tail then (case rc s1 (last obj) ?tb of (Inl e, s2) \<Rightarrow> (Inl e, s2)
                        | (Inr tail_r, s2) \<Rightarrow> (Inr (seq_assemble ?op ?cl hp (?n - hi - 1) [tail_r]), s2))
         else (Inr (seq_assemble ?op ?cl hp (?n - hi) []), s1))"
      using assms(1) tag il Inr t unfolding render_sequence_def Let_def has_tail_def by simp
    show ?thesis
    proof (cases has_tail)
      case False
      with unf assms(3) have "out = seq_assemble ?op ?cl hp (?n - hi) []" by simp
      with c le show ?thesis
        by (intro exI[of _ hp] exI[of _ "[]"]) simp
    next
      case True
      obtain res2 s2 where rt: "rc s1 (last obj) ?tb = (res2, s2)" by (cases "rc s1 (last obj) ?tb")
      show ?thesis
      proof (cases res2)
        case (Inl e) with unf True rt assms(3) show ?thesis by simp
      next
        case (Inr tail_r)
        with unf True rt assms(3) have out: "out = seq_assemble ?op ?cl hp (?n - hi - 1) [tail_r]" by simp
        have sh: "shows_item rc tail_r (last obj)" unfolding shows_item_def
          using True rt Inr by (intro exI[of _ s1] exI[of _ ?tb]) (simp add: has_tail_def)
        have dr: "drop (length obj - 1) obj = [last obj]" using assms(1)
          by (metis append_butlast_last_id append_eq_conv_conj length_butlast)
        from True c have "length hp + 1 \<le> length obj" by (simp add: has_tail_def)
        with out c sh dr show ?thesis
          by (intro exI[of _ hp] exI[of _ "[tail_r]"]) simp
      qed
    qed
  qed
qed

text \<open>
  C6. When the rendering of a non-empty dict, list, tuple or set goes through the
  allocator (the budget is above the length of the summary tag), the output is the opening
  bracket, the parts joined by \<open>", "\<close>, and the closing bracket, where the parts are the
  shown entries (each the rendering of the entry at its position: the leading entries,
  and for a sequence possibly the last one as a tail) and, exactly when the count \<open>K\<close> is
  positive, the marker \<open>...K more\<close> with \<open>K\<close> the number of entries minus the number of
  entries shown.
\<close>

theorem omission_honesty:
  "(kvs \<noteq> [] \<and> int (length (lit ''{'' @ items_marker (int (length kvs)) @ lit ''}'')) < budget
      \<and> render_dict rc s kvs budget = (Inr out, s') \<longrightarrow>
      (\<exists>parts. out = lit ''{'' @ comma_join (with_omitted parts (int (length kvs) - int (length parts))) @ lit ''}''
           \<and> list_all2 (shows_entry rc) parts (take (length parts) kvs)
           \<and> length parts \<le> length kvs))
   \<and> (xs \<noteq> [] \<and> 2 + int (length (items_marker (int (length xs)))) < budget
      \<and> render_sequence rc s is_tuple xs budget = (Inr out, s') \<longrightarrow>
      (\<exists>head_parts tail_parts.
           out = seq_assemble (if is_tuple then lit ''('' else lit ''['') (if is_tuple then lit '')'' else lit '']'')
                   head_parts (int (length xs) - int (length head_parts) - int (length tail_parts)) tail_parts
           \<and> list_all2 (shows_item rc) head_parts (take (length head_parts) xs)
           \<and> list_all2 (shows_item rc) tail_parts (drop (length xs - length tail_parts) xs)
           \<and> length head_parts + length tail_parts \<le> length xs))
   \<and> (xs \<noteq> []
      \<and> int (length (((if is_frozen then lit ''frozenset('' else []) @ lit ''{'') @ items_marker (int (length xs))
                @ lit ''}'' @ (if is_frozen then lit '')'' else []))) < budget
      \<and> render_set rc s is_frozen xs budget = (Inr out, s') \<longrightarrow>
      (\<exists>parts. out = ((if is_frozen then lit ''frozenset('' else []) @ lit ''{'')
                     @ comma_join (with_omitted parts (int (length xs) - int (length parts)))
                     @ lit ''}'' @ (if is_frozen then lit '')'' else [])
           \<and> list_all2 (shows_item rc) parts (take (length parts) xs)
           \<and> length parts \<le> length xs))"
proof (intro conjI impI)
  assume "kvs \<noteq> [] \<and> int (length (lit ''{'' @ items_marker (int (length kvs)) @ lit ''}'')) < budget
      \<and> render_dict rc s kvs budget = (Inr out, s')"
  then show "\<exists>parts. out = lit ''{'' @ comma_join (with_omitted parts (int (length kvs) - int (length parts))) @ lit ''}''
           \<and> list_all2 (shows_entry rc) parts (take (length parts) kvs)
           \<and> length parts \<le> length kvs"
    using render_dict_parts[of kvs budget rc s out s'] by blast
next
  assume "xs \<noteq> [] \<and> 2 + int (length (items_marker (int (length xs)))) < budget
      \<and> render_sequence rc s is_tuple xs budget = (Inr out, s')"
  then show "\<exists>head_parts tail_parts.
           out = seq_assemble (if is_tuple then lit ''('' else lit ''['') (if is_tuple then lit '')'' else lit '']'')
                   head_parts (int (length xs) - int (length head_parts) - int (length tail_parts)) tail_parts
           \<and> list_all2 (shows_item rc) head_parts (take (length head_parts) xs)
           \<and> list_all2 (shows_item rc) tail_parts (drop (length xs - length tail_parts) xs)
           \<and> length head_parts + length tail_parts \<le> length xs"
    using render_sequence_parts[of xs budget rc s is_tuple out s'] by blast
next
  assume "xs \<noteq> []
      \<and> int (length (((if is_frozen then lit ''frozenset('' else []) @ lit ''{'') @ items_marker (int (length xs))
                @ lit ''}'' @ (if is_frozen then lit '')'' else []))) < budget
      \<and> render_set rc s is_frozen xs budget = (Inr out, s')"
  then show "\<exists>parts. out = ((if is_frozen then lit ''frozenset('' else []) @ lit ''{'')
                     @ comma_join (with_omitted parts (int (length xs) - int (length parts)))
                     @ lit ''}'' @ (if is_frozen then lit '')'' else [])
           \<and> list_all2 (shows_item rc) parts (take (length parts) xs)
           \<and> length parts \<le> length xs"
    using render_set_parts[of xs is_frozen budget rc s out s'] by blast
qed

text \<open>\<open>list(range(100))\<close> and \<open>{i: 10 * i for i in range(50)}\<close>\<close>

definition range100 :: "val list" where
  "range100 = map (\<lambda>i. Prim (PInt (int i))) [0..<100]"

definition tens50 :: "(val \<times> val) list" where
  "tens50 = map (\<lambda>i. (Prim (PInt (int i)), Prim (PInt (int i * 10)))) [0..<50]"

theorem omission_honesty_witness:
  "range100 \<noteq> [] \<and> 2 + int (length (items_marker (int (length range100)))) < 40
   \<and> render_sequence (render_child bare_env) no_session False range100 40
        = (Inr (lit ''[0, 1, 2, 3, ...96 more]''), no_session)
   \<and> seq_assemble (lit ''['') (lit '']'') [lit ''0'', lit ''1'', lit ''2'', lit ''3''] (100 - 4 - 0) []
        = lit ''[0, 1, 2, 3, ...96 more]''
   \<and> tens50 \<noteq> [] \<and> int (length (lit ''{'' @ items_marker (int (length tens50)) @ lit ''}'')) < 60
   \<and> render_dict (render_child bare_env) no_session tens50 60
        = (Inr (lit ''{0: 0, 1: 10, 2: 20, 3: 30, 4: 40, ...45 more}''), no_session)
   \<and> lit ''{'' @ comma_join (with_omitted [lit ''0: 0'', lit ''1: 10'', lit ''2: 20'', lit ''3: 30'', lit ''4: 40''] (50 - 5)) @ lit ''}''
        = lit ''{0: 0, 1: 10, 2: 20, 3: 30, 4: 40, ...45 more}''"
proof -
  have a: "range100 \<noteq> []" by code_simp
  have b: "2 + int (length (items_marker (int (length range100)))) < 40" by code_simp
  have c: "render_sequence (render_child bare_env) no_session False range100 40
        = (Inr (lit ''[0, 1, 2, 3, ...96 more]''), no_session)" by code_simp
  have d: "seq_assemble (lit ''['') (lit '']'') [lit ''0'', lit ''1'', lit ''2'', lit ''3''] (100 - 4 - 0) []
        = lit ''[0, 1, 2, 3, ...96 more]''" by code_simp
  have e: "tens50 \<noteq> []" by code_simp
  have f: "int (length (lit ''{'' @ items_marker (int (length tens50)) @ lit ''}'')) < 60" by code_simp
  have g: "render_dict (render_child bare_env) no_session tens50 60
        = (Inr (lit ''{0: 0, 1: 10, 2: 20, 3: 30, 4: 40, ...45 more}''), no_session)" by code_simp
  have h: "lit ''{'' @ comma_join (with_omitted [lit ''0: 0'', lit ''1: 10'', lit ''2: 20'', lit ''3: 30'', lit ''4: 40''] (50 - 5)) @ lit ''}''
        = lit ''{0: 0, 1: 10, 2: 20, 3: 30, 4: 40, ...45 more}''" by code_simp
  show ?thesis
    using omission_honesty[of tens50 60 "render_child bare_env" no_session
        "lit ''{0: 0, 1: 10, 2: 20, 3: 30, 4: 40, ...45 more}''" no_session range100 False False]
      omission_honesty[of tens50 40 "render_child bare_env" no_session
        "lit ''[0, 1, 2, 3, ...96 more]''" no_session range100 False False]
      a b c d e f g h
    by blast
qed

section \<open>Renderings keep to the budget\<close>









lemma comma_join_nil [simp]: "comma_join [] = []"
  by (simp add: comma_join_def)




subsection \<open>Mappings and sets\<close>




subsection \<open>Sequences, the collections types and attribute bags\<close>








subsection \<open>Dispatch and the entry point\<close>









section \<open>Rendering returns\<close>

text \<open>
  \<open>render_child\<close> is a total function: the recursion is on the budget, which every generic
  renderer lowers before it calls back. What is left to show is that the result is a text
  and not an exception.
\<close>

















section \<open>A self-reference renders as the circular marker\<close>

text \<open>
  When the budget is large enough for the entries before it, the allocator reaches the
  entry that is the container itself; \<open>render_child\<close> finds its identity in the guard and
  returns the marker, which the allocator puts among the parts it joins.
\<close>

subsection \<open>Substrings\<close>







subsection \<open>Lists\<close>

lemma cls_hook_prim [simp]: "cls_hook E (prim_type p) = None"
  by (cases p) simp_all




text \<open>The budget that the scalars before an entry take: their \<open>repr\<close> and a separator each.\<close>

definition scalars_cost :: "prim list \<Rightarrow> int" where
  "scalars_cost ps = (\<Sum>p\<leftarrow>ps. int (length (repr_prim p)) + 2)"

lemma scalars_cost_Nil [simp]: "scalars_cost [] = 0"
  by (simp add: scalars_cost_def)

lemma scalars_cost_Cons [simp]: "scalars_cost (p # ps) = int (length (repr_prim p)) + 2 + scalars_cost ps"
  by (simp add: scalars_cost_def)



lemma length_show_nat_pos: "0 < length (show_nat n)"
  by (simp add: show_nat.simps[of n])












subsection \<open>Dicts\<close>







subsection \<open>Objects\<close>











subsection \<open>Cycles\<close>




text \<open>\<open>a = [a, b"aaa..."]\<close> with forty bytes: at a budget of 30 the byte string is cut to one
  character more than its share, and the list has 31 characters.\<close>

definition bytes_cycle_env :: env where
  "bytes_cycle_env = \<lparr>heap = (\<lambda>a. \<lparr>otype = CList, body = BList [Ref 0, Prim (PBytes (replicate 40 CHR ''a''))]\<rparr>),
              classes = (\<lambda>k. \<lparr>cname = ''C'', cmro = [CUser k, CObject], chook = None, cfields = None\<rparr>),
              registry = (\<lambda>c. None)\<rparr>"

lemma bytes_in_cycle_exceed_budget:
  "render bytes_cycle_env no_session (Ref 0) 30 Greedy
     = (Inr (lit ''[<...>, b'' @ [L (CHR 0x27)] @ lit ''aaaaaaaaaaaaaaaa...'' @ [L (CHR 0x27)] @ lit '']''), no_session)
   \<and> length (lit ''[<...>, b'' @ [L (CHR 0x27)] @ lit ''aaaaaaaaaaaaaaaa...'' @ [L (CHR 0x27)] @ lit '']'') = 31"
  by code_simp





end
